theory Spec2Isabelle
  imports Complex_Main "HOL-Library.Word" "HOL-Library.Log_Nat"
begin

section \<open>Data model of \<open>services/historyService.ts\<close> and \<open>types.ts\<close>\<close>

text \<open>
  The merge service is TypeScript running in a browser.  Its byte arrays
  (\<open>Uint8Array\<close>) are lists of 8-bit words, its strings the UTF-8 bytes of the text,
  and its numbers IEEE 754 doubles (section \<open>JavaScript numbers\<close>).  A value thrown
  by JavaScript is either an \<open>Error\<close> object carrying a message or some other value
  (a thrown string, say), given here by its text; the \<open>catch\<close> clause of
  \<open>mergeFiles\<close> tells the two apart.
\<close>

type_synonym bytes = "8 word list"

datatype thrown = Error string | NonError string

datatype FileType = Pdf | Image | Docx | Xlsx

datatype CompressionLevel = LNone | LNormal | LHigh

datatype ImageType = Png | Jpg | Unknown

text \<open>
  A browser \<open>File\<close>: its \<open>name\<close> and what \<open>arrayBuffer()\<close> settles to (the bytes, or
  the value the promise rejects with).
\<close>

record File =
  name :: string
  arrayBuffer :: "thrown + bytes"

record UploadedFile =
  uid :: string
  ufile :: File
  ftype :: FileType
  previewUrl :: "string option"
  convertedBlob :: "bytes option"
  isConverting :: "bool option"

section \<open>JavaScript numbers\<close>

text \<open>
  A JavaScript number is a double: a finite value, one of the two zeros, one of the
  two infinities, or NaN.  \<open>Fin 0\<close> is the positive zero.  The results of the
  operations are always representable; the inputs of the service are taken to be.
\<close>

datatype double = Fin real | NegZero | PosInf | NegInf | NaN

definition pow2 :: "int \<Rightarrow> real" where
  "pow2 e = (if 0 \<le> e then 2 ^ nat e else 1 / 2 ^ nat (- e))"

text \<open>Rounding to the nearest integer, a tie going to the even one.\<close>

definition roundTiesToEven :: "real \<Rightarrow> int" where
  "roundTiesToEven m =
     (let f = \<lfloor>m\<rfloor>; d = m - of_int f
      in if d < 1 / 2 then f else if 1 / 2 < d then f + 1 else if even f then f else f + 1)"

text \<open>
  \<open>ilogb x\<close> is the binary exponent of a non-zero \<open>x\<close>: \<open>pow2 (ilogb x) \<le> |x|\<close> and
  \<open>|x| < pow2 (ilogb x + 1)\<close>.  A double has 53 significant bits, so the doubles
  around \<open>x\<close> are \<open>pow2 (exponentOf x)\<close> apart, and never closer than the subnormal
  numbers, \<open>pow2 (- 1074)\<close> apart.  \<open>fl x\<close> is \<open>x\<close> rounded to that grid.
\<close>

definition ilogb :: "real \<Rightarrow> int" where
  "ilogb x =
     (if 1 \<le> \<bar>x\<bar> then bitlen \<lfloor>\<bar>x\<bar>\<rfloor> - 1 else - bitlen (\<lceil>1 / \<bar>x\<bar>\<rceil> - 1))"

definition exponentOf :: "real \<Rightarrow> int" where
  "exponentOf x = max (ilogb x - 52) (- 1074)"

definition fl :: "real \<Rightarrow> real" where
  "fl x =
     (if x = 0 then 0
      else of_int (roundTiesToEven (x / pow2 (exponentOf x))) * pow2 (exponentOf x))"

definition signedZero :: "bool \<Rightarrow> double" where
  "signedZero neg = (if neg then NegZero else Fin 0)"

definition signedInf :: "bool \<Rightarrow> double" where
  "signedInf neg = (if neg then NegInf else PosInf)"

text \<open>
  The double for an exact result \<open>x\<close> whose sign is \<open>neg\<close>: \<open>x\<close> rounded, an
  infinity when the rounded value is out of range, a zero of that sign when it
  vanishes.
\<close>

definition toDouble :: "bool \<Rightarrow> real \<Rightarrow> double" where
  "toDouble neg x =
     (let y = fl x
      in if pow2 1024 \<le> \<bar>y\<bar> then signedInf neg
         else if y = 0 then signedZero neg
         else Fin y)"

definition isZero :: "double \<Rightarrow> bool" where
  "isZero d = (d = Fin 0 \<or> d = NegZero)"

definition isInf :: "double \<Rightarrow> bool" where
  "isInf d = (d = PosInf \<or> d = NegInf)"

fun negative :: "double \<Rightarrow> bool" where
  "negative (Fin r) = (r < 0)"
| "negative NegZero = True"
| "negative NegInf = True"
| "negative PosInf = False"
| "negative NaN = False"

fun valueOf :: "double \<Rightarrow> real" where
  "valueOf (Fin r) = r"
| "valueOf NegZero = 0"
| "valueOf PosInf = 0"
| "valueOf NegInf = 0"
| "valueOf NaN = 0"

text \<open>The operators \<open>*\<close>, \<open>/\<close> and \<open>>\<close> on numbers.\<close>

definition fmul :: "double \<Rightarrow> double \<Rightarrow> double" where
  "fmul a b =
     (if a = NaN \<or> b = NaN then NaN
      else if (isZero a \<and> isInf b) \<or> (isInf a \<and> isZero b) then NaN
      else if isInf a \<or> isInf b then signedInf (negative a \<noteq> negative b)
      else if isZero a \<or> isZero b then signedZero (negative a \<noteq> negative b)
      else toDouble (negative a \<noteq> negative b) (valueOf a * valueOf b))"

definition fdiv :: "double \<Rightarrow> double \<Rightarrow> double" where
  "fdiv a b =
     (if a = NaN \<or> b = NaN then NaN
      else if (isZero a \<and> isZero b) \<or> (isInf a \<and> isInf b) then NaN
      else if isInf a \<or> isZero b then signedInf (negative a \<noteq> negative b)
      else if isZero a \<or> isInf b then signedZero (negative a \<noteq> negative b)
      else toDouble (negative a \<noteq> negative b) (valueOf a / valueOf b))"

fun rank :: "double \<Rightarrow> int" where
  "rank NegInf = - 1"
| "rank PosInf = 1"
| "rank (Fin r) = 0"
| "rank NegZero = 0"
| "rank NaN = 0"

definition fgt :: "double \<Rightarrow> double \<Rightarrow> bool" where
  "fgt a b =
     (a \<noteq> NaN \<and> b \<noteq> NaN \<and>
      (rank b < rank a \<or> (rank a = 0 \<and> rank b = 0 \<and> valueOf b < valueOf a)))"

text \<open>
  \<open>Math.round\<close>: the nearest integer, a half going up; zeros, infinities and NaN are
  returned as they are, and a negative number that rounds to zero gives the negative
  zero.
\<close>

definition Math_round :: "double \<Rightarrow> double" where
  "Math_round d =
     (case d of
        Fin r \<Rightarrow> if \<lfloor>r + 1 / 2\<rfloor> = 0 \<and> r < 0 then NegZero else Fin (of_int \<lfloor>r + 1 / 2\<rfloor>)
      | _ \<Rightarrow> d)"

text \<open>
  Integers that become numbers: a loop index or an array length (below \<open>2 ^ 32\<close>), and
  the \<open>unsigned long\<close> attributes \<open>width\<close> and \<open>height\<close> of an image.  All of them
  are doubles as they are.
\<close>

definition ofNat :: "nat \<Rightarrow> double" where
  "ofNat n = Fin (real n)"

definition ofWord :: "32 word \<Rightarrow> double" where
  "ofWord w = Fin (real (unat w))"

text \<open>
  Assigning a number to an \<open>unsigned long\<close> attribute (\<open>canvas.width\<close>): NaN, zeros
  and infinities give 0, anything else is cut to its integer part, modulo \<open>2 ^ 32\<close>.
\<close>

definition toUnsignedLong :: "double \<Rightarrow> 32 word" where
  "toUnsignedLong d =
     (case d of
        Fin r \<Rightarrow> word_of_int (if 0 \<le> r then \<lfloor>r\<rfloor> else - \<lfloor>- r\<rfloor>)
      | _ \<Rightarrow> 0)"

section \<open>\<open>detectImageType\<close>\<close>

text \<open>
  The magic-number test.  The length guard comes first, so the four indexed reads
  below are all in range.
\<close>

definition detectImageType :: "bytes \<Rightarrow> ImageType" where
  "detectImageType bs =
     (if length bs < 4 then Unknown
      else if bs ! 0 = 0x89 \<and> bs ! 1 = 0x50 \<and> bs ! 2 = 0x4E \<and> bs ! 3 = 0x47 then Png
      else if bs ! 0 = 0xFF \<and> bs ! 1 = 0xD8 then Jpg
      else Unknown)"


section \<open>Objects of pdf-lib and of the browser\<close>

text \<open>
  What \<open>processImage\<close> is given: a \<open>File\<close> or a \<open>Uint8Array\<close>.
\<close>

datatype ImageInput = FromFile File | FromBytes bytes

text \<open>
  A page of a loaded source document (opaque), a \<open>PDFEmbeddedPage\<close> and a \<open>PDFImage\<close>
  with the dimensions the code reads from them (\<open>image.scale(1)\<close> is the image's own
  width and height).
\<close>

datatype PDFPage = PDFPage nat

record PDFEmbeddedPage =
  ep_page :: PDFPage
  ep_width :: double
  ep_height :: double

record PDFImage =
  img_bytes :: bytes
  img_isPng :: bool
  img_width :: double
  img_height :: double

text \<open>
  A page of the merged document: the size given to \<open>addPage\<close> and the calls of
  \<open>drawPage\<close> / \<open>drawImage\<close> made on it, each with its options
  \<open>{x, y, width, height}\<close>.
\<close>

datatype content = EmbeddedPage PDFEmbeddedPage | EmbeddedImage PDFImage

record drawing =
  subject :: content
  at_x :: double
  at_y :: double
  draw_width :: double
  draw_height :: double

record OutPage =
  page_width :: double
  page_height :: double
  drawings :: "drawing list"

type_synonym PDFDocument = "OutPage list"

text \<open>
  The library and browser calls the service makes are parameters of the model.  A call
  that can throw returns a sum, \<open>Inl\<close> carrying the thrown value.
  \<^item> \<open>load\<close>: \<open>PDFDocument.load(arrayBuffer)\<close> followed by \<open>getPages()\<close>;
  \<^item> \<open>embedPages\<close>, \<open>embedPng\<close>, \<open>embedJpg\<close>, \<open>save\<close>: the methods of the merged
    document (\<open>save\<close> is given the pages added so far);
  \<^item> \<open>imageLoad\<close>: setting \<open>img.src\<close>; \<open>Some (img.width, img.height)\<close> when
    \<open>onload\<close> fires, \<open>None\<close> when \<open>onerror\<close> fires;
  \<^item> \<open>getContext\<close>: whether \<open>canvas.getContext('2d')\<close> is non-null, for a canvas
    whose \<open>width\<close> and \<open>height\<close> were set to the given \<open>unsigned long\<close> values;
  \<^item> \<open>toBlob\<close>: the bytes of the blob \<open>canvas.toBlob\<close> hands to its callback, for
    a canvas whose \<open>width\<close> and \<open>height\<close> were set to the given values and on which
    the image was drawn at the given width and height, with the given MIME type and
    quality (\<open>None\<close> for a null blob).
\<close>

record Env =
  load :: "bytes \<Rightarrow> thrown + PDFPage list"
  embedPages :: "PDFPage list \<Rightarrow> thrown + PDFEmbeddedPage list"
  embedPng :: "bytes \<Rightarrow> thrown + PDFImage"
  embedJpg :: "bytes \<Rightarrow> thrown + PDFImage"
  save :: "PDFDocument \<Rightarrow> thrown + bytes"
  imageLoad :: "ImageInput \<Rightarrow> (32 word \<times> 32 word) option"
  getContext :: "32 word \<Rightarrow> 32 word \<Rightarrow> bool"
  toBlob ::
    "ImageInput \<Rightarrow> 32 word \<Rightarrow> 32 word \<Rightarrow> double \<Rightarrow> double \<Rightarrow> string \<Rightarrow> double
       \<Rightarrow> bytes option"

text \<open>The literal \<open>595.28\<close> denotes the double nearest to it.\<close>

definition TARGET_WIDTH :: double where
  "TARGET_WIDTH = toDouble False 595.28"

section \<open>\<open>processImage\<close>\<close>

text \<open>
  The first block of \<open>processImage\<close>: under \<open>'none'\<close>, a \<open>File\<close> whose bytes are
  recognised is returned as it is.  \<open>None\<close> means that control falls through to the
  canvas conversion.
\<close>

definition fastPath :: "ImageInput \<Rightarrow> CompressionLevel \<Rightarrow> (thrown + bytes \<times> bool) option" where
  "fastPath inp level =
     (case inp of
        FromBytes _ \<Rightarrow> None
      | FromFile f \<Rightarrow>
          if level = LNone then
            (case arrayBuffer f of
               Inl e \<Rightarrow> Some (Inl e)
             | Inr bs \<Rightarrow>
                 (let type = detectImageType bs
                  in if type \<noteq> Unknown then Some (Inr (bs, type = Png)) else None))
          else None)"

text \<open>Step 1 of \<open>img.onload\<close>: the variables \<open>width\<close> and \<open>height\<close>.\<close>

definition maxDimensionOf :: "CompressionLevel \<Rightarrow> double" where
  "maxDimensionOf level =
     (if level = LHigh then Fin 1500 else if level = LNormal then Fin 2500 else Fin 0)"

definition canvasSize :: "CompressionLevel \<Rightarrow> double \<Rightarrow> double \<Rightarrow> double \<times> double" where
  "canvasSize level width height =
     (let maxDimension = maxDimensionOf level
      in if fgt maxDimension (Fin 0) \<and> (fgt width maxDimension \<or> fgt height maxDimension) then
           (let ratio = fdiv width height
            in if fgt width height then (maxDimension, fdiv maxDimension ratio)
               else (fmul maxDimension ratio, maxDimension))
         else (width, height))"

text \<open>Step 2 of \<open>img.onload\<close>: MIME type and quality handed to \<open>toBlob\<close>.\<close>

definition encoding :: "CompressionLevel \<Rightarrow> string \<times> double" where
  "encoding level =
     (if level = LHigh then (''image/jpeg'', Fin 0.5)
      else if level = LNormal then (''image/jpeg'', Fin 0.75)
      else (''image/png'', Fin 1.0))"

definition canvasPath :: "Env \<Rightarrow> ImageInput \<Rightarrow> CompressionLevel \<Rightarrow> thrown + bytes \<times> bool" where
  "canvasPath env inp level =
     (case imageLoad env inp of
        None \<Rightarrow> Inl (Error ''Failed to load image for processing.'')
      | Some (w, h) \<Rightarrow>
          (case canvasSize level (ofWord w) (ofWord h) of
             (width, height) \<Rightarrow>
               if \<not> getContext env (toUnsignedLong width) (toUnsignedLong height)
               then Inl (Error ''Browser canvas context not available'')
               else
                 (case encoding level of
                    (mimeType, quality) \<Rightarrow>
                      (case toBlob env inp (toUnsignedLong width) (toUnsignedLong height)
                              width height mimeType quality of
                         None \<Rightarrow> Inl (Error ''Failed to process image'')
                       | Some data \<Rightarrow> Inr (data, mimeType = ''image/png'')))))"

definition processImage :: "Env \<Rightarrow> ImageInput \<Rightarrow> CompressionLevel \<Rightarrow> thrown + bytes \<times> bool" where
  "processImage env inp level =
     (case fastPath inp level of
        Some r \<Rightarrow> r
      | None \<Rightarrow> canvasPath env inp level)"

section \<open>\<open>mergeFiles\<close>\<close>

text \<open>
  The body of \<open>embeddedPages.forEach\<close> and the block under \<open>if (image)\<close>: one page of
  the target width is added and the content is drawn on it.  (A \<open>PDFImage\<close> is an
  object, so the test \<open>if (image)\<close> always passes.)
\<close>

definition addEmbeddedPage :: "PDFDocument \<Rightarrow> PDFEmbeddedPage \<Rightarrow> PDFDocument" where
  "addEmbeddedPage mergedPdf embeddedPage =
     (let width = ep_width embeddedPage;
          height = ep_height embeddedPage;
          scaleFactor = fdiv TARGET_WIDTH width;
          scaledHeight = fmul height scaleFactor
      in mergedPdf @
           [\<lparr>page_width = TARGET_WIDTH, page_height = scaledHeight,
             drawings = [\<lparr>subject = EmbeddedPage embeddedPage, at_x = Fin 0, at_y = Fin 0,
                          draw_width = TARGET_WIDTH, draw_height = scaledHeight\<rparr>]\<rparr>])"

definition addImagePage :: "PDFDocument \<Rightarrow> PDFImage \<Rightarrow> PDFDocument" where
  "addImagePage mergedPdf img =
     (let width = img_width img;
          height = img_height img;
          scaleFactor = fdiv TARGET_WIDTH width;
          scaledHeight = fmul height scaleFactor
      in mergedPdf @
           [\<lparr>page_width = TARGET_WIDTH, page_height = scaledHeight,
             drawings = [\<lparr>subject = EmbeddedImage img, at_x = Fin 0, at_y = Fin 0,
                          draw_width = TARGET_WIDTH, draw_height = scaledHeight\<rparr>]\<rparr>])"

text \<open>
  The nested \<open>try\<close> around the embedding of an image.  The first component lists the
  embed calls made, in order; the second is the image or the value thrown last.
\<close>

definition embedImage :: "Env \<Rightarrow> bytes \<Rightarrow> bool \<Rightarrow> ImageType list \<times> (thrown + PDFImage)" where
  "embedImage env imageBytes isPng =
     (case (if isPng then embedPng env imageBytes else embedJpg env imageBytes) of
        Inr img \<Rightarrow> ([if isPng then Png else Jpg], Inr img)
      | Inl e \<Rightarrow>
          (case embedJpg env imageBytes of
             Inr img \<Rightarrow> ([if isPng then Png else Jpg, Jpg], Inr img)
           | Inl _ \<Rightarrow> ([if isPng then Png else Jpg, Jpg, Png], embedPng env imageBytes)))"

text \<open>
  The body of the outer \<open>try\<close> for one input: \<open>Inl\<close> is what reaches the \<open>catch\<close>,
  \<open>Inr\<close> the merged document after the input's pages were added.
\<close>

definition processFile :: "Env \<Rightarrow> CompressionLevel \<Rightarrow> UploadedFile \<Rightarrow> PDFDocument \<Rightarrow> thrown + PDFDocument" where
  "processFile env level fileData mergedPdf =
     (if ftype fileData = Pdf then
        (case arrayBuffer (ufile fileData) of
           Inl e \<Rightarrow> Inl e
         | Inr buf \<Rightarrow>
             (case load env buf of
                Inl e \<Rightarrow> Inl e
              | Inr pages \<Rightarrow>
                  (case embedPages env pages of
                     Inl e \<Rightarrow> Inl e
                   | Inr embeddedPages \<Rightarrow> Inr (foldl addEmbeddedPage mergedPdf embeddedPages))))
      else
        (let inputData = (case convertedBlob fileData of
                            Some blob \<Rightarrow> FromBytes blob
                          | None \<Rightarrow> FromFile (ufile fileData))
         in case processImage env inputData level of
              Inl e \<Rightarrow> Inl e
            | Inr (imageBytes, isPng) \<Rightarrow>
                (case snd (embedImage env imageBytes isPng) of
                   Inl e \<Rightarrow> Inl e
                 | Inr img \<Rightarrow> Inr (addImagePage mergedPdf img))))"

text \<open>Decimal rendering of a number inside a template string.\<close>

function showNat :: "nat \<Rightarrow> string" where
  "showNat n =
     (if n < 10 then [''0123456789'' ! n]
      else showNat (n div 10) @ [''0123456789'' ! (n mod 10)])"
  by pat_completeness auto
termination
  by (relation "measure id") auto

declare showNat.simps [simp del]

text \<open>
  The three messages, as UTF-8.  \<open>processingMessage i n\<close> is the template
  with "i + 1" and the file name filled in.
\<close>

definition processingMessage :: "nat \<Rightarrow> string \<Rightarrow> string" where
  "processingMessage i fileName =
     [CHR 0xE6, CHR 0xAD, CHR 0xA3, CHR 0xE5, CHR 0x9C, CHR 0xA8, CHR 0xE5, CHR 0xA4,
      CHR 0x84, CHR 0xE7, CHR 0x90, CHR 0x86, CHR 0xE7, CHR 0xAC, CHR 0xAC, CHR 0x20]
     @ showNat (i + 1) @
     [CHR 0x20, CHR 0xE4, CHR 0xB8, CHR 0xAA, CHR 0xE6, CHR 0x96, CHR 0x87, CHR 0xE4,
      CHR 0xBB, CHR 0xB6, CHR 0x3A, CHR 0x20]
     @ fileName @ ''...''"

definition unknownError :: string where
  "unknownError =
     [CHR 0xE6, CHR 0x9C, CHR 0xAA, CHR 0xE7, CHR 0x9F, CHR 0xA5, CHR 0xE9, CHR 0x94,
      CHR 0x99, CHR 0xE8, CHR 0xAF, CHR 0xAF]"

definition errorMessage :: "string \<Rightarrow> thrown \<Rightarrow> string" where
  "errorMessage fileName error =
     [CHR 0xE5, CHR 0x90, CHR 0x88, CHR 0xE5, CHR 0xB9, CHR 0xB6, CHR 0xE6, CHR 0x96,
      CHR 0x87, CHR 0xE4, CHR 0xBB, CHR 0xB6, CHR 0x20]
     @ fileName @
     [CHR 0x20, CHR 0xE6, CHR 0x97, CHR 0xB6, CHR 0xE5, CHR 0x87, CHR 0xBA, CHR 0xE9,
      CHR 0x94, CHR 0x99, CHR 0x3A, CHR 0x20]
     @ (case error of Error message \<Rightarrow> message | NonError _ \<Rightarrow> unknownError)"

definition finalMessage :: string where
  "finalMessage =
     [CHR 0xE6, CHR 0xAD, CHR 0xA3, CHR 0xE5, CHR 0x9C, CHR 0xA8, CHR 0xE6, CHR 0x89,
      CHR 0x93, CHR 0xE5, CHR 0x8C, CHR 0x85, CHR 0xE7, CHR 0x94, CHR 0x9F, CHR 0xE6,
      CHR 0x88, CHR 0x90, CHR 0xE6, CHR 0x9C, CHR 0x80, CHR 0xE7, CHR 0xBB, CHR 0x88,
      CHR 0xE6, CHR 0x96, CHR 0x87, CHR 0xE4, CHR 0xBB, CHR 0xB6, CHR 0x2E, CHR 0x2E,
      CHR 0x2E]"

text \<open>
  The \<open>for\<close> loop.  \<open>i\<close> is the loop index and the list holds \<open>files[i]\<close>,
  \<open>files[i + 1]\<close>, ...; the state is the list of calls made to \<open>onProgress\<close> and the
  merged document.  A throw leaves the loop with the progress reported so far and the
  \<open>Error\<close> built in the \<open>catch\<close> clause.
\<close>

type_synonym progress = "string \<times> double"

fun mergeLoop ::
  "Env \<Rightarrow> CompressionLevel \<Rightarrow> nat \<Rightarrow> nat \<Rightarrow> UploadedFile list \<Rightarrow> progress list \<Rightarrow> PDFDocument
     \<Rightarrow> progress list \<times> (thrown + PDFDocument)" where
  "mergeLoop env level totalFiles i [] reported mergedPdf = (reported, Inr mergedPdf)"
| "mergeLoop env level totalFiles i (fileData # rest) reported mergedPdf =
     (let progress = Math_round (fmul (fdiv (ofNat (i + 1)) (ofNat totalFiles)) (Fin 100));
          reported' = reported @ [(processingMessage i (name (ufile fileData)), progress)]
      in case processFile env level fileData mergedPdf of
           Inl error \<Rightarrow>
             (reported', Inl (Error (errorMessage (name (ufile fileData)) error)))
         | Inr mergedPdf' \<Rightarrow>
             mergeLoop env level totalFiles (i + 1) rest reported' mergedPdf')"

text \<open>
  \<open>mergeFiles\<close> returns the calls made to \<open>onProgress\<close>, in order, and either
  the value thrown or the bytes \<open>save\<close> produced.  \<open>PDFDocument.create()\<close> is the
  document without pages.
\<close>

definition mergeFiles ::
  "Env \<Rightarrow> UploadedFile list \<Rightarrow> CompressionLevel \<Rightarrow> progress list \<times> (thrown + bytes)" where
  "mergeFiles env files level =
     (case mergeLoop env level (length files) 0 files [] [] of
        (reported, Inl e) \<Rightarrow> (reported, Inl e)
      | (reported, Inr mergedPdf) \<Rightarrow>
          (reported @ [(finalMessage, Fin 100)], save env mergedPdf))"

text \<open>
  The pages one input adds when it is processed on its own, and none when its
  processing throws.
\<close>

definition pagesOf :: "Env \<Rightarrow> CompressionLevel \<Rightarrow> UploadedFile \<Rightarrow> OutPage list" where
  "pagesOf env level fileData =
     (case processFile env level fileData [] of Inl _ \<Rightarrow> [] | Inr ps \<Rightarrow> ps)"

text \<open>
  The width and height the code reads from what it draws: the fields of the embedded
  page, or \<open>image.scale(1)\<close>.
\<close>

fun intrinsicWidth :: "content \<Rightarrow> double" where
  "intrinsicWidth (EmbeddedPage embeddedPage) = ep_width embeddedPage"
| "intrinsicWidth (EmbeddedImage img) = img_width img"

fun intrinsicHeight :: "content \<Rightarrow> double" where
  "intrinsicHeight (EmbeddedPage embeddedPage) = ep_height embeddedPage"
| "intrinsicHeight (EmbeddedImage img) = img_height img"

text \<open>
  The page that both \<open>addPage\<close> sites build for what they draw (a shorthand used to
  state properties).
\<close>

abbreviation scaledPageOf :: "content \<Rightarrow> OutPage" where
  "scaledPageOf c \<equiv>
     \<lparr>page_width = TARGET_WIDTH,
      page_height = fmul (intrinsicHeight c) (fdiv TARGET_WIDTH (intrinsicWidth c)),
      drawings = [\<lparr>subject = c, at_x = Fin 0, at_y = Fin 0, draw_width = TARGET_WIDTH,
                   draw_height = fmul (intrinsicHeight c) (fdiv TARGET_WIDTH (intrinsicWidth c))\<rparr>]\<rparr>"

section \<open>Sample inputs\<close>

text \<open>
  A small world to run the service in: PDF sources of one page (300 by 300 points and
  612 by 792 points) and of no page, a PNG and a JPEG upload, a file that is neither,
  and library calls that accept exactly those.  As in pdf-lib, the PNG decoder throws
  a string and the JPEG decoder an \<open>Error\<close>.
\<close>

definition pdfBytes :: bytes where
  "pdfBytes = [0x25, 0x50, 0x44, 0x46, 0x2D, 0x31]"

definition emptyPdfBytes :: bytes where
  "emptyPdfBytes = [0x25, 0x50, 0x44, 0x46, 0x2D, 0x30]"

definition pngBytes :: bytes where
  "pngBytes = [0x89, 0x50, 0x4E, 0x47, 0x0D, 0x0A]"

definition jpgBytes :: bytes where
  "jpgBytes = [0xFF, 0xD8, 0xFF, 0xE0]"

definition bmpBytes :: bytes where
  "bmpBytes = [0x42, 0x4D, 0x00, 0x00]"

definition letterPdfBytes :: bytes where
  "letterPdfBytes = [0x25, 0x50, 0x44, 0x46, 0x2D, 0x32]"

definition corruptPngBytes :: bytes where
  "corruptPngBytes = [0x89, 0x50, 0x4E, 0x47, 0x00, 0x00]"

definition corruptJpgBytes :: bytes where
  "corruptJpgBytes = [0xFF, 0xD8, 0x00, 0x00]"

definition sampleEnv :: Env where
  "sampleEnv =
     \<lparr>load = (\<lambda>bs. if bs = pdfBytes then Inr [PDFPage 0]
                    else if bs = emptyPdfBytes then Inr []
                    else if bs = letterPdfBytes then Inr [PDFPage 1]
                    else Inl (Error ''No PDF header found'')),
      embedPages =
        (\<lambda>ps. Inr (map (\<lambda>p. if p = PDFPage 1
                             then \<lparr>ep_page = p, ep_width = Fin 612, ep_height = Fin 792\<rparr>
                             else \<lparr>ep_page = p, ep_width = Fin 300, ep_height = Fin 300\<rparr>)
                    ps)),
      embedPng = (\<lambda>bs. if bs = pngBytes
                        then Inr \<lparr>img_bytes = bs, img_isPng = True,
                                  img_width = Fin 600, img_height = Fin 300\<rparr>
                        else Inl (NonError ''The input is not a PNG file!'')),
      embedJpg = (\<lambda>bs. if bs = jpgBytes
                        then Inr \<lparr>img_bytes = bs, img_isPng = False,
                                  img_width = Fin 1500, img_height = Fin 750\<rparr>
                        else Inl (Error ''SOI not found in JPEG'')),
      save = (\<lambda>doc. Inr (pdfBytes @ replicate (length doc) 0x0A)),
      imageLoad = (\<lambda>inp. case inp of
                            FromBytes bs \<Rightarrow>
                              if bs = pngBytes then Some (4000, 2000)
                              else if bs = jpgBytes then Some (3000, 62)
                              else None
                          | FromFile f \<Rightarrow> None),
      getContext = (\<lambda>cw ch. True),
      toBlob = (\<lambda>inp cw ch w h mimeType quality.
                  if mimeType = ''image/jpeg'' then Some jpgBytes else Some pngBytes)\<rparr>"

definition mkUpload :: "string \<Rightarrow> FileType \<Rightarrow> bytes \<Rightarrow> UploadedFile" where
  "mkUpload n t bs =
     \<lparr>uid = n, ufile = \<lparr>name = n, arrayBuffer = Inr bs\<rparr>, ftype = t,
      previewUrl = None, convertedBlob = None, isConverting = None\<rparr>"

definition samplePdf :: UploadedFile where
  "samplePdf = mkUpload ''A.pdf'' Pdf pdfBytes"

definition samplePng :: UploadedFile where
  "samplePng = mkUpload ''B.png'' Image pngBytes"

definition sampleEmptyPdf :: UploadedFile where
  "sampleEmptyPdf = mkUpload ''E.pdf'' Pdf emptyPdfBytes"

definition sampleBmp :: UploadedFile where
  "sampleBmp = mkUpload ''C.bmp'' Image bmpBytes"

definition sampleLetterPdf :: UploadedFile where
  "sampleLetterPdf = mkUpload ''L.pdf'' Pdf letterPdfBytes"

definition sampleCorruptPng :: UploadedFile where
  "sampleCorruptPng = mkUpload ''D.png'' Image corruptPngBytes"

section \<open>Rounding to a double\<close>

lemma pow2_powr: "pow2 e = 2 powr (of_int e)"
  using powr_int [of "2::real" e] unfolding pow2_def by simp

lemma pow2_pos: "0 < pow2 e"
  by (simp add: pow2_powr)

lemma pow2_add: "pow2 (a + b) = pow2 a * pow2 b"
  by (simp add: pow2_powr powr_add)

lemma pow2_le_iff: "(pow2 a \<le> pow2 b) = (a \<le> b)"
  by (simp add: pow2_powr)

lemma pow2_less_iff: "(pow2 a < pow2 b) = (a < b)"
  by (simp add: pow2_powr)

lemma pow2_0: "pow2 0 = 1"
  by (simp add: pow2_def)

lemma pow2_nat: "pow2 (int n) = 2 ^ n"
  by (simp add: pow2_def)

lemma round_error: "\<bar>of_int (roundTiesToEven m) - m\<bar> \<le> 1 / 2"
  unfolding roundTiesToEven_def Let_def by (simp split: if_splits; linarith)

lemma round_le: "m \<le> of_int j \<Longrightarrow> roundTiesToEven m \<le> j"
  unfolding roundTiesToEven_def Let_def
  by (simp split: if_splits; linarith)

lemma round_ge: "of_int j \<le> m \<Longrightarrow> j \<le> roundTiesToEven m"
  unfolding roundTiesToEven_def Let_def
  by (simp split: if_splits; linarith)

lemma ilogb_bounds:
  assumes "x \<noteq> 0"
  shows "pow2 (ilogb x) \<le> \<bar>x\<bar> \<and> \<bar>x\<bar> < pow2 (ilogb x + 1)"
proof (cases "1 \<le> \<bar>x\<bar>")
  case True
  let ?n = "\<lfloor>\<bar>x\<bar>\<rfloor>"
  from True have n: "0 < ?n" by linarith
  from bitlen_bounds [OF n]
  have lo: "2 ^ nat (bitlen ?n - 1) \<le> ?n" and hi: "?n < 2 ^ nat (bitlen ?n)" by simp_all
  from n have b1: "1 \<le> bitlen ?n" by (auto simp: bitlen_alt_def)
  have e: "ilogb x = bitlen ?n - 1" using True by (simp add: ilogb_def)
  have "pow2 (ilogb x) = 2 ^ nat (bitlen ?n - 1)" using b1 by (simp add: e pow2_def)
  also have "\<dots> = of_int (2 ^ nat (bitlen ?n - 1))" by simp
  also have "\<dots> \<le> of_int ?n" using lo by (simp only: of_int_le_iff)
  also have "\<dots> \<le> \<bar>x\<bar>" by linarith
  finally have 1: "pow2 (ilogb x) \<le> \<bar>x\<bar>" .
  have "?n + 1 \<le> 2 ^ nat (bitlen ?n)" using hi by simp
  then have "real_of_int (?n + 1) \<le> real_of_int (2 ^ nat (bitlen ?n))"
    by (simp only: of_int_le_iff)
  then have A: "real_of_int ?n + 1 \<le> 2 ^ nat (bitlen ?n)" by simp
  have B: "\<bar>x\<bar> < real_of_int ?n + 1" by linarith
  from A B have "\<bar>x\<bar> < 2 ^ nat (bitlen ?n)" by linarith
  moreover have "pow2 (ilogb x + 1) = 2 ^ nat (bitlen ?n)" using b1 by (simp add: e pow2_def)
  ultimately show ?thesis using 1 by simp
next
  case False
  with assms have x: "0 < \<bar>x\<bar>" "\<bar>x\<bar> < 1" by simp_all
  let ?y = "1 / \<bar>x\<bar>"
  let ?n = "\<lceil>?y\<rceil> - 1"
  from x have y: "1 < ?y" by simp
  then have n: "0 < ?n" by linarith
  from bitlen_bounds [OF n]
  have lo: "2 ^ nat (bitlen ?n - 1) \<le> ?n" and hi: "?n < 2 ^ nat (bitlen ?n)" by simp_all
  from n have b1: "1 \<le> bitlen ?n" by (auto simp: bitlen_alt_def)
  have e: "ilogb x = - bitlen ?n" using False by (simp add: ilogb_def)
  have "?n + 1 \<le> 2 ^ nat (bitlen ?n)" using hi by simp
  then have "real_of_int (?n + 1) \<le> real_of_int (2 ^ nat (bitlen ?n))"
    by (simp only: of_int_le_iff)
  then have A: "real_of_int ?n + 1 \<le> 2 ^ nat (bitlen ?n)" by simp
  have B: "?y \<le> real_of_int ?n + 1" by linarith
  from A B have yhi: "?y \<le> 2 ^ nat (bitlen ?n)" by linarith
  have "real_of_int (2 ^ nat (bitlen ?n - 1)) \<le> real_of_int ?n"
    using lo by (simp only: of_int_le_iff)
  then have C: "2 ^ nat (bitlen ?n - 1) \<le> real_of_int ?n" by simp
  have D: "real_of_int ?n < ?y" by linarith
  from C D have ylo: "2 ^ nat (bitlen ?n - 1) < ?y" by linarith
  have p1: "pow2 (ilogb x) = 1 / 2 ^ nat (bitlen ?n)" using b1 by (simp add: e pow2_def)
  have p2: "pow2 (ilogb x + 1) = 1 / 2 ^ nat (bitlen ?n - 1)"
  proof (cases "bitlen ?n = 1")
    case True
    then show ?thesis by (simp add: e pow2_def)
  next
    case False
    with b1 have "- bitlen ?n + 1 < 0" by simp
    moreover have "nat (- (- bitlen ?n + 1)) = nat (bitlen ?n - 1)" by simp
    ultimately show ?thesis by (simp add: e pow2_def)
  qed
  from yhi x have "1 / 2 ^ nat (bitlen ?n) \<le> \<bar>x\<bar>"
    by (simp add: field_simps)
  moreover from ylo x have "\<bar>x\<bar> < 1 / 2 ^ nat (bitlen ?n - 1)"
    by (simp add: field_simps)
  ultimately show ?thesis by (simp add: p1 p2)
qed

lemma ilogb_unique:
  assumes "pow2 e \<le> \<bar>x\<bar>" and "\<bar>x\<bar> < pow2 (e + 1)"
  shows "ilogb x = e"
proof -
  from assms(1) pow2_pos [of e] have "x \<noteq> 0" by auto
  from ilogb_bounds [OF this]
  have a: "pow2 (ilogb x) \<le> \<bar>x\<bar>" and b: "\<bar>x\<bar> < pow2 (ilogb x + 1)" by simp_all
  from a assms(2) have "pow2 (ilogb x) < pow2 (e + 1)" by linarith
  then have 1: "ilogb x < e + 1" by (simp only: pow2_less_iff)
  from assms(1) b have "pow2 e < pow2 (ilogb x + 1)" by linarith
  then have 2: "e < ilogb x + 1" by (simp only: pow2_less_iff)
  from 1 2 show ?thesis by simp
qed

lemma fl_eval:
  assumes "pow2 (e + 52) \<le> \<bar>x\<bar>" and "\<bar>x\<bar> < pow2 (e + 53)" and "- 1074 \<le> e"
  shows "fl x = of_int (roundTiesToEven (x / pow2 e)) * pow2 e"
proof -
  from assms(2) have "\<bar>x\<bar> < pow2 (e + 52 + 1)" by (simp add: add.assoc)
  from ilogb_unique [OF assms(1) this] have "ilogb x = e + 52" .
  with assms(3) have e: "exponentOf x = e" by (simp add: exponentOf_def)
  from assms(1) pow2_pos [of "e + 52"] have "x \<noteq> 0" by auto
  then show ?thesis by (simp add: fl_def e)
qed

lemma fl_error:
  assumes "pow2 (- 1022) \<le> \<bar>x\<bar>"
  shows "\<bar>fl x - x\<bar> \<le> \<bar>x\<bar> * pow2 (- 53)"
proof -
  from assms pow2_pos [of "- 1022"] have x0: "x \<noteq> 0" by auto
  from ilogb_bounds [OF x0] have lo: "pow2 (ilogb x) \<le> \<bar>x\<bar>" and hi: "\<bar>x\<bar> < pow2 (ilogb x + 1)"
    by simp_all
  from assms hi have "pow2 (- 1022) < pow2 (ilogb x + 1)" by linarith
  then have "- 1022 < ilogb x + 1" by (simp only: pow2_less_iff)
  then have e: "exponentOf x = ilogb x - 52" by (simp add: exponentOf_def)
  let ?e = "ilogb x - 52"
  let ?m = "x / pow2 ?e"
  have fl: "fl x = of_int (roundTiesToEven ?m) * pow2 ?e" using x0 by (simp add: fl_def e)
  have "fl x - x = (of_int (roundTiesToEven ?m) - ?m) * pow2 ?e"
    using pow2_pos [of ?e] by (simp add: fl field_simps)
  then have "\<bar>fl x - x\<bar> = \<bar>of_int (roundTiesToEven ?m) - ?m\<bar> * pow2 ?e"
    using pow2_pos [of ?e] by (simp add: abs_mult)
  also have "\<dots> \<le> (1 / 2) * pow2 ?e"
    using round_error [of ?m] pow2_pos [of ?e] by (intro mult_right_mono) simp_all
  also have "\<dots> = pow2 (ilogb x) * pow2 (- 53)"
  proof -
    have "pow2 ?e = pow2 (ilogb x + (- 53) + 1)" by simp
    also have "\<dots> = pow2 (ilogb x) * pow2 (- 53) * pow2 1" by (simp only: pow2_add)
    finally show ?thesis by (simp add: pow2_def)
  qed
  also have "\<dots> \<le> \<bar>x\<bar> * pow2 (- 53)"
    using lo pow2_pos [of "- 53"] by (intro mult_right_mono) simp_all
  finally show ?thesis .
qed


lemma exponentOf_nonpos:
  assumes "x \<noteq> 0" and "\<bar>x\<bar> < pow2 53"
  shows "exponentOf x \<le> 0"
proof -
  from ilogb_bounds [OF assms(1)] assms(2) have "pow2 (ilogb x) < pow2 53" by linarith
  then have "ilogb x < 53" by (simp only: pow2_less_iff)
  then show ?thesis by (simp add: exponentOf_def)
qed

lemma pow2_nonpos: "e \<le> 0 \<Longrightarrow> pow2 e = 1 / 2 ^ nat (- e)"
  by (cases "e = 0") (simp_all add: pow2_def)

lemma fl_le_int:
  assumes "\<bar>x\<bar> < pow2 53" and "x \<le> of_int k"
  shows "fl x \<le> of_int k"
proof (cases "x = 0")
  case True
  with assms(2) show ?thesis by (simp add: fl_def)
next
  case False
  let ?e = "exponentOf x"
  let ?N = "(2::int) ^ nat (- ?e)"
  from exponentOf_nonpos [OF False assms(1)] have p: "pow2 ?e = 1 / real_of_int ?N"
    by (simp add: pow2_nonpos)
  have N: "0 < real_of_int ?N" by simp
  have "x / pow2 ?e = x * real_of_int ?N" by (simp add: p)
  also have "\<dots> \<le> of_int k * real_of_int ?N"
    using assms(2) N by (intro mult_right_mono) simp_all
  also have "\<dots> = of_int (k * ?N)" by simp
  finally have "roundTiesToEven (x / pow2 ?e) \<le> k * ?N" by (rule round_le)
  then have "real_of_int (roundTiesToEven (x / pow2 ?e)) \<le> real_of_int (k * ?N)"
    by (simp only: of_int_le_iff)
  then have "real_of_int (roundTiesToEven (x / pow2 ?e)) / real_of_int ?N \<le> of_int k"
    using N by (simp add: field_simps)
  with False show ?thesis by (simp add: fl_def p)
qed

lemma fl_ge_int:
  assumes "\<bar>x\<bar> < pow2 53" and "of_int k \<le> x"
  shows "of_int k \<le> fl x"
proof (cases "x = 0")
  case True
  with assms(2) show ?thesis by (simp add: fl_def)
next
  case False
  let ?e = "exponentOf x"
  let ?N = "(2::int) ^ nat (- ?e)"
  from exponentOf_nonpos [OF False assms(1)] have p: "pow2 ?e = 1 / real_of_int ?N"
    by (simp add: pow2_nonpos)
  have N: "0 < real_of_int ?N" by simp
  have "of_int (k * ?N) = of_int k * real_of_int ?N" by simp
  also have "\<dots> \<le> x * real_of_int ?N"
    using assms(2) N by (intro mult_right_mono) simp_all
  also have "\<dots> = x / pow2 ?e" by (simp add: p)
  finally have "k * ?N \<le> roundTiesToEven (x / pow2 ?e)" by (rule round_ge)
  then have "real_of_int (k * ?N) \<le> real_of_int (roundTiesToEven (x / pow2 ?e))"
    by (simp only: of_int_le_iff)
  then have "of_int k \<le> real_of_int (roundTiesToEven (x / pow2 ?e)) / real_of_int ?N"
    using N by (simp add: field_simps)
  with False show ?thesis by (simp add: fl_def p)
qed

lemma fl_int:
  assumes "\<bar>real_of_int k\<bar> < pow2 53"
  shows "fl (of_int k) = of_int k"
  using fl_le_int [OF assms, of k] fl_ge_int [OF assms, of k] by simp

lemma fl_bounds:
  assumes "0 < x" and "pow2 (- 1022) \<le> x"
  shows "x * (1 - pow2 (- 53)) \<le> fl x" and "fl x \<le> x * (1 + pow2 (- 53))" and "0 < fl x"
proof -
  from assms have "pow2 (- 1022) \<le> \<bar>x\<bar>" by simp
  from fl_error [OF this] assms(1) have e: "\<bar>fl x - x\<bar> \<le> x * pow2 (- 53)" by simp
  then show 1: "x * (1 - pow2 (- 53)) \<le> fl x" by (simp add: algebra_simps; linarith)
  from e show "fl x \<le> x * (1 + pow2 (- 53))" by (simp add: algebra_simps; linarith)
  have "pow2 (- 53) < pow2 0" by (simp add: pow2_less_iff)
  then have "0 < 1 - pow2 (- 53)" by (simp add: pow2_0)
  with assms(1) have "0 < x * (1 - pow2 (- 53))" by simp
  with 1 show "0 < fl x" by linarith
qed


lemma fl_at:
  assumes "pow2 (e + 52) \<le> \<bar>x\<bar>" and "\<bar>x\<bar> < pow2 (e + 53)" and "- 1074 \<le> e"
    and "roundTiesToEven (x / pow2 e) = m"
  shows "fl x = of_int m * pow2 e"
  using fl_eval [OF assms(1-3)] assms(4) by simp

lemma pow2_1024_gt: "e \<le> 1023 \<Longrightarrow> x \<le> pow2 e \<Longrightarrow> x * (1 + pow2 (- 53)) < pow2 1024"
proof -
  assume e: "e \<le> 1023" and x: "x \<le> pow2 e"
  have "pow2 e \<le> pow2 1023" using e by (simp only: pow2_le_iff)
  with x have x': "x \<le> pow2 1023" by linarith
  have "pow2 (- 53) < pow2 0" by (simp add: pow2_less_iff)
  then have u: "1 + pow2 (- 53) < 2" "0 < 1 + pow2 (- 53)"
    using pow2_pos [of "- 53"] by (simp_all add: pow2_0)
  have "x * (1 + pow2 (- 53)) \<le> pow2 1023 * (1 + pow2 (- 53))"
    using x' u(2) by (intro mult_right_mono) simp_all
  also have "\<dots> < pow2 1023 * 2"
    using u(1) pow2_pos [of 1023] by (intro mult_strict_left_mono) simp_all
  also have "\<dots> = pow2 1024"
  proof -
    have "pow2 1024 = pow2 (1023 + 1)" by simp
    also have "\<dots> = pow2 1023 * pow2 1" by (simp only: pow2_add)
    finally show ?thesis by (simp add: pow2_def)
  qed
  finally show ?thesis .
qed

lemma toDouble_normal:
  assumes "0 < x" and "pow2 lo \<le> x" and "- 1022 \<le> lo" and "x \<le> pow2 hi" and "hi \<le> 1023"
  shows "toDouble neg x = Fin (fl x)"
proof -
  have "pow2 (- 1022) \<le> pow2 lo" using assms(3) by (simp only: pow2_le_iff)
  with assms(2) have n: "pow2 (- 1022) \<le> x" by linarith
  note b = fl_bounds [OF assms(1) n]
  from b(2) pow2_1024_gt [OF assms(5) assms(4)] have "fl x < pow2 1024" by linarith
  with b(3) show ?thesis by (simp add: toDouble_def Let_def)
qed

lemma fdiv_Fin:
  assumes "a \<noteq> 0" and "b \<noteq> 0"
  shows "fdiv (Fin a) (Fin b) = toDouble ((a < 0) \<noteq> (b < 0)) (a / b)"
  using assms by (simp add: fdiv_def isZero_def isInf_def)

lemma fmul_Fin:
  assumes "a \<noteq> 0" and "b \<noteq> 0"
  shows "fmul (Fin a) (Fin b) = toDouble ((a < 0) \<noteq> (b < 0)) (a * b)"
  using assms by (simp add: fmul_def isZero_def isInf_def)

lemma fgt_Fin: "fgt (Fin a) (Fin b) = (b < a)"
  by (simp add: fgt_def)

lemma toDouble_int:
  assumes "k \<noteq> 0" and "\<bar>real_of_int k\<bar> < pow2 53"
  shows "toDouble neg (of_int k) = Fin (of_int k)"
proof -
  have "pow2 53 < pow2 1024" by (simp add: pow2_less_iff)
  with assms(2) have "\<bar>real_of_int k\<bar> < pow2 1024" by linarith
  with assms(1) fl_int [OF assms(2)] show ?thesis by (simp add: toDouble_def Let_def)
qed


lemma prod_error:
  fixes c q u r x :: real
  assumes "0 < c" and "0 < q" and "0 \<le> u" and "u \<le> 1"
    and "\<bar>r - q\<bar> \<le> q * u" and "\<bar>x - c * r\<bar> \<le> c * r * u"
  shows "\<bar>x - c * q\<bar> \<le> 3 * u * (c * q)"
proof -
  from assms(5) have r: "r \<le> q * (1 + u)" by (simp add: algebra_simps; linarith)
  have cq: "0 < c * q" using assms(1,2) by simp
  have "c * r * u \<le> c * (q * (1 + u)) * u"
    using r assms(1,3) by (intro mult_right_mono mult_left_mono) simp_all
  also have "\<dots> = (c * q) * u * (1 + u)" by (simp add: algebra_simps)
  also have "\<dots> \<le> (c * q) * u * 2"
    using cq assms(3,4) by (intro mult_left_mono) simp_all
  finally have "c * r * u \<le> 2 * u * (c * q)" by (simp add: algebra_simps)
  with assms(6) have 1: "\<bar>x - c * r\<bar> \<le> 2 * u * (c * q)" by linarith
  have "\<bar>c * r - c * q\<bar> = c * \<bar>r - q\<bar>"
    using assms(1) by (simp add: abs_mult flip: right_diff_distrib)
  also have "\<dots> \<le> c * (q * u)" using assms(1,5) by (intro mult_left_mono) simp_all
  finally have 2: "\<bar>c * r - c * q\<bar> \<le> u * (c * q)" by (simp add: algebra_simps)
  have "\<bar>x - c * q\<bar> \<le> \<bar>x - c * r\<bar> + \<bar>c * r - c * q\<bar>" by simp
  with 1 2 show ?thesis by linarith
qed

lemma quot_error:
  fixes c q u r y :: real
  assumes "0 < c" and "0 < q" and "0 \<le> u" and "u \<le> 1 / 4"
    and "\<bar>r - q\<bar> \<le> q * u" and "\<bar>y - c / r\<bar> \<le> (c / r) * u"
  shows "\<bar>y - c / q\<bar> \<le> 3 * u * (c / q)"
proof -
  have u1: "0 < 1 - u" using assms(4) by simp
  from assms(5) have rlo: "q * (1 - u) \<le> r" by (simp add: algebra_simps; linarith)
  have qu: "0 < q * (1 - u)" using assms(2) u1 by simp
  with rlo have rpos: "0 < r" by linarith
  have k: "0 < c / q" using assms(1,2) by simp
  have t: "c / r \<le> c / (q * (1 - u))"
    using rlo qu assms(1) by (intro divide_left_mono) simp_all
  have "c / r - c / q = (c / r) * ((q - r) / q)"
    using rpos assms(2) by (simp add: field_simps)
  then have "\<bar>c / r - c / q\<bar> = (c / r) * (\<bar>q - r\<bar> / q)"
    using rpos assms(1,2) by (simp add: abs_mult)
  also have "\<dots> \<le> (c / r) * u"
  proof -
    have "\<bar>q - r\<bar> / q \<le> u" using assms(2,5) by (simp add: field_simps abs_minus_commute)
    moreover have "0 \<le> c / r" using assms(1) rpos by simp
    ultimately show ?thesis by (intro mult_left_mono) simp_all
  qed
  finally have 1: "\<bar>c / r - c / q\<bar> \<le> (c / r) * u" .
  have "\<bar>y - c / q\<bar> \<le> \<bar>y - c / r\<bar> + \<bar>c / r - c / q\<bar>" by simp
  with 1 assms(6) have "\<bar>y - c / q\<bar> \<le> 2 * ((c / r) * u)" by linarith
  also have "\<dots> \<le> 2 * ((c / (q * (1 - u))) * u)"
    using t assms(3) by (intro mult_left_mono mult_right_mono) simp_all
  also have "\<dots> = (c / q) * (2 * u / (1 - u))"
    using u1 assms(2) by (simp add: field_simps)
  also have "\<dots> \<le> (c / q) * (3 * u)"
  proof -
    have "2 * u / (1 - u) \<le> 3 * u"
    proof -
      have "2 * u \<le> 3 * u * (1 - u)"
      proof -
        have "3 * u * (1 - u) - 2 * u = u * (1 - 3 * u)" by (simp add: algebra_simps)
        moreover have "0 \<le> u * (1 - 3 * u)" using assms(3,4) by (intro mult_nonneg_nonneg) simp_all
        ultimately show ?thesis by linarith
      qed
      then show ?thesis using u1 by (simp add: field_simps)
    qed
    with k show ?thesis by (intro mult_left_mono) simp_all
  qed
  finally show ?thesis by (simp add: algebra_simps)
qed

section \<open>Properties of the codec sniffer\<close>

lemma take4_eq:
  "(take 4 bs = [a, b, c, d]) =
     (4 \<le> length bs \<and> bs ! 0 = a \<and> bs ! 1 = b \<and> bs ! 2 = c \<and> bs ! 3 = d)"
proof (cases bs)
  case Nil
  then show ?thesis by simp
next
  case (Cons x1 r1)
  note c1 = this
  show ?thesis
  proof (cases r1)
    case Nil
    with c1 show ?thesis by simp
  next
    case (Cons x2 r2)
    note c2 = this
    show ?thesis
    proof (cases r2)
      case Nil
      with c1 c2 show ?thesis by simp
    next
      case (Cons x3 r3)
      note c3 = this
      show ?thesis
      proof (cases r3)
        case Nil
        with c1 c2 c3 show ?thesis by simp
      next
        case (Cons x4 r4)
        with c1 c2 c3 show ?thesis by (simp add: numeral_eq_Suc)
      qed
    qed
  qed
qed

lemma take2_eq:
  "2 \<le> length bs \<Longrightarrow> (take 2 bs = [a, b]) = (bs ! 0 = a \<and> bs ! 1 = b)"
proof (cases bs)
  case Nil
  assume "2 \<le> length bs"
  with Nil show ?thesis by simp
next
  case (Cons x1 r1)
  assume len: "2 \<le> length bs"
  show ?thesis
  proof (cases r1)
    case Nil
    with Cons len show ?thesis by simp
  next
    case (Cons x2 r2)
    with \<open>bs = x1 # r1\<close> show ?thesis by (simp add: numeral_eq_Suc)
  qed
qed

text \<open>
  Claim C8, as amended.  \<open>detectImageType\<close> answers \<open>Png\<close> exactly on the byte strings
  whose first four bytes are 89 50 4E 47, answers \<open>Jpg\<close> exactly on those of at least
  four bytes whose first two bytes are FF D8, answers \<open>Unknown\<close> on everything else, and
  so on every byte string shorter than four bytes.  It is a total function of the bytes
  alone: it has no state to change and no failing branch.
\<close>

theorem detectImageType_classifies:
  "((detectImageType bs = Png) = (take 4 bs = [0x89, 0x50, 0x4E, 0x47])) \<and>
   ((detectImageType bs = Jpg) = (4 \<le> length bs \<and> take 2 bs = [0xFF, 0xD8])) \<and>
   ((detectImageType bs = Unknown) =
      (take 4 bs \<noteq> [0x89, 0x50, 0x4E, 0x47] \<and>
       \<not> (4 \<le> length bs \<and> take 2 bs = [0xFF, 0xD8]))) \<and>
   (length bs < 4 \<longrightarrow> detectImageType bs = Unknown)"
proof (cases "4 \<le> length bs")
  case True
  then have "2 \<le> length bs" by simp
  from take2_eq [OF this] True show ?thesis
    unfolding take4_eq by (auto simp add: detectImageType_def)
next
  case False
  then show ?thesis
    unfolding take4_eq by (simp add: detectImageType_def)
qed

theorem detectImageType_classifies_witness:
  "length [0xFF, 0xD8, 0x00 :: 8 word] < 4 \<and> detectImageType [0xFF, 0xD8, 0x00] = Unknown"
  using detectImageType_classifies [of "[0xFF, 0xD8, 0x00]"] by simp

text \<open>
  Claim C8 as it is written fails on a three-byte input that starts with FF D8: its
  first two bytes are the JPEG marker, and the length guard answers \<open>Unknown\<close>.
\<close>

theorem detectImageType_short_jpeg_counterexample:
  "take 2 [0xFF, 0xD8, 0x00 :: 8 word] = [0xFF, 0xD8] \<and>
   detectImageType [0xFF, 0xD8, 0x00] \<noteq> Jpg"
  by (simp add: detectImageType_def)

section \<open>Properties of \<open>processImage\<close>\<close>

text \<open>
  Claim C5.  Under \<open>'none'\<close>, a \<open>File\<close> whose bytes \<open>detectImageType\<close> recognises
  comes back from \<open>processImage\<close> with the very bytes that were read and with
  \<open>isPng\<close> set exactly when the bytes were sniffed as PNG.  The first block of the
  function returns, so the canvas is never reached: the result is the same whatever
  the browser would have decoded or encoded.
\<close>

theorem processImage_fast_path:
  assumes "arrayBuffer f = Inr bs" and "detectImageType bs \<noteq> Unknown"
  shows "fastPath (FromFile f) LNone = Some (Inr (bs, detectImageType bs = Png)) \<and>
         processImage env (FromFile f) LNone = Inr (bs, detectImageType bs = Png)"
  using assms by (simp add: processImage_def fastPath_def)

theorem processImage_fast_path_witness:
  "arrayBuffer (ufile samplePng) = Inr pngBytes \<and> detectImageType pngBytes \<noteq> Unknown \<and>
   processImage sampleEnv (FromFile (ufile samplePng)) LNone = Inr (pngBytes, True)"
proof -
  have a: "arrayBuffer (ufile samplePng) = Inr pngBytes"
    by (simp add: samplePng_def mkUpload_def)
  have b: "detectImageType pngBytes \<noteq> Unknown"
    by (simp add: detectImageType_def pngBytes_def)
  have c: "detectImageType pngBytes = Png"
    by (simp add: detectImageType_def pngBytes_def)
  from processImage_fast_path [OF a b, of sampleEnv] a b c show ?thesis by simp
qed

section \<open>Properties of \<open>mergeFiles\<close>\<close>

text \<open>
  Claim C10.  With no input the loop body never runs: no per-input progress is
  reported and the percentage (a division by the number of files) is never computed.
  The only call of \<open>onProgress\<close> is the final one, at 100, and the result is what
  \<open>save\<close> makes of the document without pages; when \<open>save\<close> gives bytes, they are
  returned.
\<close>

theorem mergeFiles_empty:
  "mergeFiles env [] level = ([(finalMessage, Fin 100)], save env []) \<and>
   (\<forall>out. save env [] = Inr out \<longrightarrow> snd (mergeFiles env [] level) = Inr out)"
  by (simp add: mergeFiles_def)

theorem mergeFiles_empty_witness:
  "save sampleEnv [] = Inr pdfBytes \<and> snd (mergeFiles sampleEnv [] LNone) = Inr pdfBytes"
  using mergeFiles_empty [of sampleEnv LNone] by (simp add: sampleEnv_def)

section \<open>Properties of the embed retry\<close>

lemma sample_embedPng_corrupt:
  "embedPng sampleEnv corruptPngBytes = Inl (NonError ''The input is not a PNG file!'')"
  by (simp add: sampleEnv_def corruptPngBytes_def pngBytes_def)

lemma sample_embedJpg_corrupt:
  "embedJpg sampleEnv corruptPngBytes = Inl (Error ''SOI not found in JPEG'')"
  by (simp add: sampleEnv_def corruptPngBytes_def jpgBytes_def)

lemma sample_embedJpg_corruptJpg:
  "embedJpg sampleEnv corruptJpgBytes = Inl (Error ''SOI not found in JPEG'')"
  by (simp add: sampleEnv_def corruptJpgBytes_def jpgBytes_def)

lemma sample_processImage_corrupt:
  "processImage sampleEnv (FromFile (ufile sampleCorruptPng)) LNone = Inr (corruptPngBytes, True)"
  by (simp add: processImage_def fastPath_def detectImageType_def
      sampleCorruptPng_def mkUpload_def corruptPngBytes_def)

text \<open>
  Claim C7, as amended.  When the first embed call (PNG if \<open>isPng\<close>, else JPEG)
  throws, the code calls \<open>embedJpg\<close> and, if that throws as well, \<open>embedPng\<close>,
  whichever codec was reported.  The codec opposite to the reported one is therefore
  always among the retries, at most two retries are made, and the input fails only
  when neither \<open>embedPng\<close> nor \<open>embedJpg\<close> accepts the bytes; what is thrown then is
  what the last call, \<open>embedPng\<close>, throws.
\<close>

theorem embedImage_retries:
  assumes "(if isPng then embedPng env bs else embedJpg env bs) = Inl e"
  shows
    "hd (fst (embedImage env bs isPng)) = (if isPng then Png else Jpg) \<and>
     (\<forall>img. embedJpg env bs = Inr img \<longrightarrow>
        embedImage env bs isPng = ([if isPng then Png else Jpg, Jpg], Inr img)) \<and>
     (\<forall>e'. embedJpg env bs = Inl e' \<longrightarrow>
        embedImage env bs isPng = ([if isPng then Png else Jpg, Jpg, Png], embedPng env bs)) \<and>
     (if isPng then Jpg else Png) \<in> set (tl (fst (embedImage env bs isPng))) \<and>
     length (tl (fst (embedImage env bs isPng))) \<le> 2 \<and>
     (\<forall>t. snd (embedImage env bs isPng) = Inl t \<longrightarrow>
        embedPng env bs = Inl t \<and> (\<exists>t'. embedJpg env bs = Inl t'))"
  using assms
  by (cases "embedJpg env bs"; cases "embedPng env bs"; cases isPng)
     (simp_all add: embedImage_def)

theorem embedImage_retries_witness:
  "(if True then embedPng sampleEnv corruptPngBytes else embedJpg sampleEnv corruptPngBytes)
     = Inl (NonError ''The input is not a PNG file!'') \<and>
   embedJpg sampleEnv corruptPngBytes = Inl (Error ''SOI not found in JPEG'') \<and>
   embedImage sampleEnv corruptPngBytes True =
     ([Png, Jpg, Png], Inl (NonError ''The input is not a PNG file!''))"
proof -
  have first: "(if True then embedPng sampleEnv corruptPngBytes
                else embedJpg sampleEnv corruptPngBytes)
                 = Inl (NonError ''The input is not a PNG file!'')"
    by (simp add: sample_embedPng_corrupt)
  from embedImage_retries [OF first] sample_embedJpg_corrupt
  have "embedImage sampleEnv corruptPngBytes True =
          ([if True then Png else Jpg, Jpg, Png], embedPng sampleEnv corruptPngBytes)"
    by blast
  with first sample_embedJpg_corrupt show ?thesis by simp
qed

text \<open>
  Claim C7 as it is written fails.  An upload that carries the PNG signature and
  embeds under neither codec is tried three times, the third time as PNG again after
  the JPEG retry has failed; bytes reported as JPEG are first retried as JPEG.
\<close>

theorem embedImage_three_attempts_counterexample:
  "processImage sampleEnv (FromFile (ufile sampleCorruptPng)) LNone = Inr (corruptPngBytes, True) \<and>
   fst (embedImage sampleEnv corruptPngBytes True) = [Png, Jpg, Png] \<and>
   fst (embedImage sampleEnv corruptJpgBytes False) = [Jpg, Jpg, Png]"
  by (simp add: embedImage_def sample_processImage_corrupt sample_embedPng_corrupt
      sample_embedJpg_corrupt sample_embedJpg_corruptJpg)

section \<open>The loop of \<open>mergeFiles\<close>\<close>

text \<open>
  What an input adds does not depend on the pages already in the document, so the
  loop can be described input by input.
\<close>

lemma addEmbeddedPage_append:
  "addEmbeddedPage doc ep = doc @ addEmbeddedPage [] ep"
  by (simp add: addEmbeddedPage_def Let_def)

lemma addImagePage_append:
  "addImagePage doc img = doc @ addImagePage [] img"
  by (simp add: addImagePage_def Let_def)

lemma foldl_addEmbeddedPage:
  "foldl addEmbeddedPage doc eps = doc @ concat (map (addEmbeddedPage []) eps)"
proof (induction eps arbitrary: doc)
  case Nil
  show ?case by simp
next
  case (Cons ep eps)
  have "foldl addEmbeddedPage doc (ep # eps) = foldl addEmbeddedPage (addEmbeddedPage doc ep) eps"
    by simp
  also have "\<dots> = addEmbeddedPage doc ep @ concat (map (addEmbeddedPage []) eps)"
    by (rule Cons.IH)
  also have "\<dots> = doc @ concat (map (addEmbeddedPage []) (ep # eps))"
    by (subst addEmbeddedPage_append) simp
  finally show ?case .
qed

lemma processFile_append:
  "processFile env level fd doc =
     (case processFile env level fd [] of Inl e \<Rightarrow> Inl e | Inr ps \<Rightarrow> Inr (doc @ ps))"
proof (cases "ftype fd = Pdf")
  case True
  then show ?thesis
    by (simp add: processFile_def foldl_addEmbeddedPage [of doc]
        foldl_addEmbeddedPage [of "[]"] split: sum.splits)
next
  case False
  then show ?thesis
    by (simp add: processFile_def Let_def addImagePage_append [of doc]
        split: sum.splits prod.splits)
qed

lemma processFile_pagesOf:
  "processFile env level fd doc = Inr doc' \<Longrightarrow>
     processFile env level fd [] = Inr (pagesOf env level fd) \<and> doc' = doc @ pagesOf env level fd"
  by (subst (asm) processFile_append) (simp add: pagesOf_def split: sum.splits)

lemma processFile_fails:
  "processFile env level fd doc = Inl t \<Longrightarrow> processFile env level fd [] = Inl t"
  by (subst (asm) processFile_append) (simp split: sum.splits)


lemma mergeLoop_success:
  assumes "\<forall>fd\<in>set files. \<exists>ps. processFile env level fd [] = Inr ps"
  shows "mergeLoop env level n i files reported doc =
           (reported @
              map (\<lambda>j. (processingMessage (i + j) (name (ufile (files ! j))),
                         Math_round (fmul (fdiv (ofNat (i + j + 1)) (ofNat n)) (Fin 100))))
                [0..<length files],
            Inr (doc @ concat (map (pagesOf env level) files)))"
  using assms
proof (induction files arbitrary: i reported doc)
  case Nil
  show ?case by simp
next
  case (Cons fd rest)
  from Cons.prems obtain ps where ps: "processFile env level fd [] = Inr ps" by auto
  then have step: "processFile env level fd doc = Inr (doc @ pagesOf env level fd)"
    by (subst processFile_append) (simp add: pagesOf_def)
  from Cons.prems have rest: "\<forall>g\<in>set rest. \<exists>ps. processFile env level g [] = Inr ps"
    by simp
  let ?ev = "(processingMessage i (name (ufile fd)), Math_round (fmul (fdiv (ofNat (i + 1)) (ofNat n)) (Fin 100)))"
  have "mergeLoop env level n i (fd # rest) reported doc =
          mergeLoop env level n (i + 1) rest (reported @ [?ev]) (doc @ pagesOf env level fd)"
    by (simp add: step Let_def)
  also have "\<dots> =
          ((reported @ [?ev]) @
              map (\<lambda>j. (processingMessage (i + 1 + j) (name (ufile (rest ! j))),
                         Math_round (fmul (fdiv (ofNat (i + 1 + j + 1)) (ofNat n)) (Fin 100))))
                [0..<length rest],
            Inr ((doc @ pagesOf env level fd) @ concat (map (pagesOf env level) rest)))"
    by (rule Cons.IH [OF rest])
  also have "\<dots> =
          (reported @
              map (\<lambda>j. (processingMessage (i + j) (name (ufile ((fd # rest) ! j))),
                         Math_round (fmul (fdiv (ofNat (i + j + 1)) (ofNat n)) (Fin 100))))
                [0..<length (fd # rest)],
            Inr (doc @ concat (map (pagesOf env level) (fd # rest))))"
    by (simp add: map_upt_Suc del: upt_Suc)
  finally show ?case .
qed

lemma mergeLoop_failure:
  assumes "\<forall>g\<in>set pre. \<exists>ps. processFile env level g [] = Inr ps"
    and "processFile env level fd [] = Inl t"
  shows "mergeLoop env level n i (pre @ fd # post) reported doc =
           (reported @
              map (\<lambda>j. (processingMessage (i + j) (name (ufile ((pre @ [fd]) ! j))),
                         Math_round (fmul (fdiv (ofNat (i + j + 1)) (ofNat n)) (Fin 100))))
                [0..<length pre + 1],
            Inl (Error (errorMessage (name (ufile fd)) t)))"
  using assms(1)
proof (induction pre arbitrary: i reported doc)
  case Nil
  have "processFile env level fd doc = Inl t"
    by (subst processFile_append) (simp add: assms(2))
  then show ?case by (simp add: Let_def)
next
  case (Cons g rest)
  from Cons.prems obtain ps where ps: "processFile env level g [] = Inr ps" by auto
  then have step: "processFile env level g doc = Inr (doc @ pagesOf env level g)"
    by (subst processFile_append) (simp add: pagesOf_def)
  from Cons.prems have rest: "\<forall>g\<in>set rest. \<exists>ps. processFile env level g [] = Inr ps"
    by simp
  let ?ev = "(processingMessage i (name (ufile g)), Math_round (fmul (fdiv (ofNat (i + 1)) (ofNat n)) (Fin 100)))"
  have "mergeLoop env level n i ((g # rest) @ fd # post) reported doc =
          mergeLoop env level n (i + 1) (rest @ fd # post) (reported @ [?ev])
            (doc @ pagesOf env level g)"
    by (simp add: step Let_def)
  also have "\<dots> =
          ((reported @ [?ev]) @
              map (\<lambda>j. (processingMessage (i + 1 + j) (name (ufile ((rest @ [fd]) ! j))),
                         Math_round (fmul (fdiv (ofNat (i + 1 + j + 1)) (ofNat n)) (Fin 100))))
                [0..<length rest + 1],
            Inl (Error (errorMessage (name (ufile fd)) t)))"
    by (rule Cons.IH [OF rest])
  also have "\<dots> =
          (reported @
              map (\<lambda>j. (processingMessage (i + j) (name (ufile (((g # rest) @ [fd]) ! j))),
                         Math_round (fmul (fdiv (ofNat (i + j + 1)) (ofNat n)) (Fin 100))))
                [0..<length (g # rest) + 1],
            Inl (Error (errorMessage (name (ufile fd)) t)))"
    by (simp add: map_upt_Suc del: upt_Suc)
  finally show ?case .
qed

lemma mergeLoop_Inr_all:
  "snd (mergeLoop env level n i files reported doc) = Inr d \<Longrightarrow>
     \<forall>fd\<in>set files. \<exists>ps. processFile env level fd [] = Inr ps"
proof (induction files arbitrary: i reported doc)
  case Nil
  show ?case by simp
next
  case (Cons fd rest)
  show ?case
  proof (cases "processFile env level fd doc")
    case (Inl t)
    with Cons.prems show ?thesis by (simp add: Let_def)
  next
    case (Inr doc')
    from processFile_pagesOf [OF Inr] have here: "\<exists>ps. processFile env level fd [] = Inr ps"
      by blast
    from Cons.prems Inr
    have "snd (mergeLoop env level n (i + 1) rest
                 (reported @ [(processingMessage i (name (ufile fd)),
                               Math_round (fmul (fdiv (ofNat (i + 1)) (ofNat n)) (Fin 100)))]) doc') = Inr d"
      by (simp add: Let_def)
    from Cons.IH [OF this] here show ?thesis by simp
  qed
qed

section \<open>Running the samples\<close>

lemma sample_processFile_pdf:
  "processFile sampleEnv LNone samplePdf [] =
     Inr [\<lparr>page_width = TARGET_WIDTH,
           page_height = fmul (Fin 300) (fdiv TARGET_WIDTH (Fin 300)),
           drawings = [\<lparr>subject = EmbeddedPage \<lparr>ep_page = PDFPage 0, ep_width = Fin 300,
                                                 ep_height = Fin 300\<rparr>,
                        at_x = Fin 0, at_y = Fin 0, draw_width = TARGET_WIDTH,
                        draw_height = fmul (Fin 300) (fdiv TARGET_WIDTH (Fin 300))\<rparr>]\<rparr>]"
  by (simp add: processFile_def samplePdf_def mkUpload_def sampleEnv_def addEmbeddedPage_def Let_def)

lemma sample_processImage_png:
  "processImage sampleEnv (FromFile (ufile samplePng)) LNone = Inr (pngBytes, True)"
  by (simp add: processImage_def fastPath_def detectImageType_def samplePng_def mkUpload_def
      pngBytes_def)

lemma sample_embedImage_png:
  "embedImage sampleEnv pngBytes True =
     ([Png], Inr \<lparr>img_bytes = pngBytes, img_isPng = True, img_width = Fin 600, img_height = Fin 300\<rparr>)"
proof -
  have "embedPng sampleEnv pngBytes =
          Inr \<lparr>img_bytes = pngBytes, img_isPng = True, img_width = Fin 600, img_height = Fin 300\<rparr>"
    by (simp add: sampleEnv_def)
  then show ?thesis by (simp add: embedImage_def)
qed

lemma sample_processFile_png:
  "processFile sampleEnv LNone samplePng [] =
     Inr [\<lparr>page_width = TARGET_WIDTH,
           page_height = fmul (Fin 300) (fdiv TARGET_WIDTH (Fin 600)),
           drawings = [\<lparr>subject = EmbeddedImage \<lparr>img_bytes = pngBytes, img_isPng = True,
                                                  img_width = Fin 600, img_height = Fin 300\<rparr>,
                        at_x = Fin 0, at_y = Fin 0, draw_width = TARGET_WIDTH,
                        draw_height = fmul (Fin 300) (fdiv TARGET_WIDTH (Fin 600))\<rparr>]\<rparr>]"
proof -
  have a: "ftype samplePng \<noteq> Pdf" "convertedBlob samplePng = None"
    by (simp_all add: samplePng_def mkUpload_def)
  show ?thesis
    by (simp add: processFile_def a sample_processImage_png sample_embedImage_png
        addImagePage_def Let_def)
qed

lemma sample_processFile_emptyPdf:
  "processFile sampleEnv LNone sampleEmptyPdf [] = Inr []"
  by (simp add: processFile_def sampleEmptyPdf_def mkUpload_def sampleEnv_def
      emptyPdfBytes_def pdfBytes_def)

lemma sample_processFile_bmp:
  "processFile sampleEnv LNone sampleBmp [] = Inl (Error ''Failed to load image for processing.'')"
proof -
  have a: "ftype sampleBmp \<noteq> Pdf" "convertedBlob sampleBmp = None"
    by (simp_all add: sampleBmp_def mkUpload_def)
  have b: "processImage sampleEnv (FromFile (ufile sampleBmp)) LNone =
             Inl (Error ''Failed to load image for processing.'')"
    by (simp add: processImage_def fastPath_def canvasPath_def detectImageType_def
        sampleBmp_def mkUpload_def bmpBytes_def sampleEnv_def)
  show ?thesis by (simp add: processFile_def a b)
qed

section \<open>Page order\<close>

lemma concat_block:
  assumes "i < length xss"
  shows "take (length (xss ! i)) (drop (sum_list (map length (take i xss))) (concat xss)) = xss ! i"
proof -
  have "xss = take i xss @ (xss ! i) # drop (Suc i) xss"
    using assms by (rule id_take_nth_drop)
  then have "concat xss = concat (take i xss) @ (xss ! i) @ concat (drop (Suc i) xss)"
    by (metis concat.simps(2) concat_append)
  moreover have "length (concat (take i xss)) = sum_list (map length (take i xss))"
    by (rule length_concat)
  ultimately show ?thesis by simp
qed

lemma mergeFiles_Inr:
  assumes "snd (mergeFiles env files level) = Inr out"
  shows "mergeLoop env level (length files) 0 files [] [] =
           (map (\<lambda>j. (processingMessage j (name (ufile (files ! j))),
                       Math_round (fmul (fdiv (ofNat (j + 1)) (ofNat (length files))) (Fin 100))))
              [0..<length files],
            Inr (concat (map (pagesOf env level) files))) \<and>
         save env (concat (map (pagesOf env level) files)) = Inr out"
proof -
  obtain reported r where loop: "mergeLoop env level (length files) 0 files [] [] = (reported, r)"
    by (cases "mergeLoop env level (length files) 0 files [] []")
  show ?thesis
  proof (cases r)
    case (Inl t)
    with loop assms show ?thesis by (simp add: mergeFiles_def)
  next
    case (Inr doc)
    with loop have "snd (mergeLoop env level (length files) 0 files [] []) = Inr doc" by simp
    then have all: "\<forall>fd\<in>set files. \<exists>ps. processFile env level fd [] = Inr ps"
      by (rule mergeLoop_Inr_all)
    have eq: "mergeLoop env level (length files) 0 files [] [] =
           (map (\<lambda>j. (processingMessage j (name (ufile (files ! j))),
                       Math_round (fmul (fdiv (ofNat (j + 1)) (ofNat (length files))) (Fin 100))))
              [0..<length files],
            Inr (concat (map (pagesOf env level) files)))"
      using mergeLoop_success [OF all, of "length files" 0 "[]" "[]"] by simp
    with assms show ?thesis by (simp add: mergeFiles_def)
  qed
qed

text \<open>
  Claim C2.  When \<open>mergeFiles\<close> returns bytes, the document handed to \<open>save\<close> is the
  concatenation, in the order of \<open>files\<close>, of the pages each input adds.  Its number of
  pages is the sum of the inputs' page counts, and the pages of input \<open>i\<close> sit right
  after those of the inputs before it: they are the block of the document that starts
  at the total page count of inputs \<open>0 .. i - 1\<close>.
\<close>

theorem mergeFiles_page_order:
  assumes "snd (mergeFiles env files level) = Inr out"
  shows "snd (mergeLoop env level (length files) 0 files [] []) =
           Inr (concat (map (pagesOf env level) files)) \<and>
         save env (concat (map (pagesOf env level) files)) = Inr out \<and>
         length (concat (map (pagesOf env level) files)) =
           sum_list (map (\<lambda>fd. length (pagesOf env level fd)) files) \<and>
         (\<forall>i<length files.
            processFile env level (files ! i) [] = Inr (pagesOf env level (files ! i)) \<and>
            take (length (pagesOf env level (files ! i)))
              (drop (sum_list (map (\<lambda>fd. length (pagesOf env level fd)) (take i files)))
                 (concat (map (pagesOf env level) files)))
              = pagesOf env level (files ! i))"
proof -
  note loop = mergeFiles_Inr [OF assms]
  from loop have doc: "snd (mergeLoop env level (length files) 0 files [] []) =
           Inr (concat (map (pagesOf env level) files))" by simp
  have len: "length (concat (map (pagesOf env level) files)) =
           sum_list (map (\<lambda>fd. length (pagesOf env level fd)) files)"
    by (simp add: length_concat comp_def)
  have blocks: "\<forall>i<length files.
            processFile env level (files ! i) [] = Inr (pagesOf env level (files ! i)) \<and>
            take (length (pagesOf env level (files ! i)))
              (drop (sum_list (map (\<lambda>fd. length (pagesOf env level fd)) (take i files)))
                 (concat (map (pagesOf env level) files)))
              = pagesOf env level (files ! i)"
  proof (intro allI impI)
    fix i assume i: "i < length files"
    then have "files ! i \<in> set files" by simp
    with mergeLoop_Inr_all [OF doc]
    obtain ps where "processFile env level (files ! i) [] = Inr ps" by blast
    then have ok: "processFile env level (files ! i) [] = Inr (pagesOf env level (files ! i))"
      by (simp add: pagesOf_def)
    from i have "i < length (map (pagesOf env level) files)" by simp
    from concat_block [OF this] i
    have "take (length (pagesOf env level (files ! i)))
              (drop (sum_list (map (\<lambda>fd. length (pagesOf env level fd)) (take i files)))
                 (concat (map (pagesOf env level) files)))
              = pagesOf env level (files ! i)"
      by (simp add: take_map comp_def)
    with ok show "processFile env level (files ! i) [] = Inr (pagesOf env level (files ! i)) \<and>
            take (length (pagesOf env level (files ! i)))
              (drop (sum_list (map (\<lambda>fd. length (pagesOf env level fd)) (take i files)))
                 (concat (map (pagesOf env level) files)))
              = pagesOf env level (files ! i)" by simp
  qed
  from doc loop len blocks show ?thesis by blast
qed

lemma sample_loop_ok:
  "\<forall>fd\<in>set [samplePdf, samplePng]. \<exists>ps. processFile sampleEnv LNone fd [] = Inr ps"
  by (simp add: sample_processFile_pdf sample_processFile_png)

lemma sample_pagesOf:
  "length (pagesOf sampleEnv LNone samplePdf) = 1"
  "length (pagesOf sampleEnv LNone samplePng) = 1"
  by (simp_all add: pagesOf_def sample_processFile_pdf sample_processFile_png)

lemma sample_save: "length doc = 2 \<Longrightarrow> save sampleEnv doc = Inr (pdfBytes @ [0x0A, 0x0A])"
  by (simp add: sampleEnv_def numeral_2_eq_2)

lemma sample_merge:
  "snd (mergeFiles sampleEnv [samplePdf, samplePng] LNone) = Inr (pdfBytes @ [0x0A, 0x0A])"
proof -
  have len: "length (pagesOf sampleEnv LNone samplePdf @ pagesOf sampleEnv LNone samplePng) = 2"
    by (simp add: sample_pagesOf)
  have loop: "mergeLoop sampleEnv LNone (Suc (Suc 0)) 0 [samplePdf, samplePng] [] [] =
     ([] @ map (\<lambda>j. (processingMessage (0 + j) (name (ufile ([samplePdf, samplePng] ! j))),
                       Math_round (fmul (fdiv (ofNat (0 + j + 1)) (ofNat (Suc (Suc 0)))) (Fin 100))))
              [0..<length [samplePdf, samplePng]],
      Inr ([] @ concat (map (pagesOf sampleEnv LNone) [samplePdf, samplePng])))"
    by (rule mergeLoop_success [OF sample_loop_ok])
  show ?thesis
    by (simp add: mergeFiles_def loop sample_save [OF len] del: mergeLoop.simps)
qed

theorem mergeFiles_page_order_witness:
  "snd (mergeFiles sampleEnv [samplePdf, samplePng] LNone) = Inr (pdfBytes @ [0x0A, 0x0A]) \<and>
   length (concat (map (pagesOf sampleEnv LNone) [samplePdf, samplePng])) = 2 \<and>
   take 1 (drop 1 (concat (map (pagesOf sampleEnv LNone) [samplePdf, samplePng])))
     = pagesOf sampleEnv LNone samplePng"
proof -
  from mergeFiles_page_order [OF sample_merge]
  have len: "length (concat (map (pagesOf sampleEnv LNone) [samplePdf, samplePng])) =
           sum_list (map (\<lambda>fd. length (pagesOf sampleEnv LNone fd)) [samplePdf, samplePng])"
    and blk: "\<forall>i<length [samplePdf, samplePng].
            take (length (pagesOf sampleEnv LNone ([samplePdf, samplePng] ! i)))
              (drop (sum_list (map (\<lambda>fd. length (pagesOf sampleEnv LNone fd))
                      (take i [samplePdf, samplePng])))
                 (concat (map (pagesOf sampleEnv LNone) [samplePdf, samplePng])))
              = pagesOf sampleEnv LNone ([samplePdf, samplePng] ! i)"
    by blast+
  from blk have "take (length (pagesOf sampleEnv LNone ([samplePdf, samplePng] ! 1)))
              (drop (sum_list (map (\<lambda>fd. length (pagesOf sampleEnv LNone fd))
                      (take 1 [samplePdf, samplePng])))
                 (concat (map (pagesOf sampleEnv LNone) [samplePdf, samplePng])))
              = pagesOf sampleEnv LNone ([samplePdf, samplePng] ! 1)"
    by simp
  then have "take 1 (drop 1 (concat (map (pagesOf sampleEnv LNone) [samplePdf, samplePng])))
     = pagesOf sampleEnv LNone samplePng"
    by (simp add: sample_pagesOf)
  with len sample_merge show ?thesis by (simp add: sample_pagesOf)
qed

section \<open>Rounding errors of the resize\<close>

lemma u_small: "0 \<le> pow2 (- 53)" "pow2 (- 53) \<le> 1 / 4" "pow2 (- 53) \<le> 1"
proof -
  show "0 \<le> pow2 (- 53)" using pow2_pos [of "- 53"] by simp
  have "pow2 (- 53) \<le> pow2 (- 2)" by (simp add: pow2_le_iff)
  then show "pow2 (- 53) \<le> 1 / 4" by (simp add: pow2_def)
  then show "pow2 (- 53) \<le> 1" by simp
qed

lemma fl_error_pos:
  assumes "0 < x" and "pow2 (- 1022) \<le> x"
  shows "\<bar>fl x - x\<bar> \<le> x * pow2 (- 53)"
proof -
  from assms have "pow2 (- 1022) \<le> \<bar>x\<bar>" by simp
  from fl_error [OF this] assms(1) show ?thesis by simp
qed

lemma pow2_lower: "lo \<ge> - 1022 \<Longrightarrow> pow2 lo \<le> x \<Longrightarrow> pow2 (- 1022) \<le> x"
proof -
  assume "lo \<ge> - 1022" and x: "pow2 lo \<le> x"
  then have "pow2 (- 1022) \<le> pow2 lo" by (simp only: pow2_le_iff)
  with x show ?thesis by linarith
qed

lemma resize_wide:
  fixes a b M :: real
  assumes "1 \<le> b" and "b < a" and "a < 2 ^ 32" and "M = of_int k" and "1 \<le> k" and "k \<le> 2 ^ 20"
  shows "\<exists>y. fdiv (Fin M) (fdiv (Fin a) (Fin b)) = Fin y \<and> 0 < y \<and> y \<le> M \<and>
             \<bar>y - M * b / a\<bar> \<le> 3 * pow2 (- 53) * (M * b / a)"
proof -
  define q where "q = a / b"
  define r where "r = fl q"
  let ?y = "fl (M / r)"
  have M: "1 \<le> M" "M \<le> 2 ^ 20" using assms(4,5,6) by simp_all
  have q1: "1 < q" using assms(1,2) by (simp add: q_def)
  have "q \<le> a" using assms(1,2) by (simp add: q_def field_simps)
  with assms(3) have q2: "q < 2 ^ 32" by linarith
  have qlo: "pow2 0 \<le> q" using q1 by (simp add: pow2_0)
  have qhi: "q \<le> pow2 32" using q2 by (simp add: pow2_def)
  have d1: "fdiv (Fin a) (Fin b) = Fin r"
    using assms(1,2) toDouble_normal [OF _ qlo _ qhi, of False] q1
    by (simp add: fdiv_Fin q_def r_def)
  have q53: "\<bar>q\<bar> < pow2 53" using q1 q2 by (simp add: pow2_def)
  have "of_int 1 \<le> q" using q1 by simp
  from fl_ge_int [OF q53 this] have r1: "1 \<le> r" by (simp add: r_def)
  have q0: "0 < q" using q1 by linarith
  have qn: "pow2 (- 1022) \<le> q" by (rule pow2_lower [OF _ qlo]) simp
  have rerr: "\<bar>r - q\<bar> \<le> q * pow2 (- 53)"
    unfolding r_def by (rule fl_error_pos [OF q0 qn])
  have "q * pow2 (- 53) \<le> q * 1" using u_small(3) q0 by (intro mult_left_mono) simp_all
  then have qu: "q * pow2 (- 53) \<le> q" by simp
  have "r - q \<le> \<bar>r - q\<bar>" by simp
  with rerr qu have "r \<le> 2 * q" by linarith
  with q2 have r2: "r < 2 ^ 33" by simp
  let ?c = "M / r"
  have cpos: "0 < ?c" using M r1 by simp
  have cle: "?c \<le> M" using M r1 by (simp add: field_simps)
  have "M / 2 ^ 33 \<le> ?c" using r1 r2 M by (intro divide_left_mono) simp_all
  moreover have "pow2 (- 33) \<le> M / 2 ^ 33" using M by (simp add: pow2_def field_simps)
  ultimately have clo: "pow2 (- 33) \<le> ?c" by linarith
  have chi: "?c \<le> pow2 20" using cle M by (simp add: pow2_def)
  have r0: "r \<noteq> 0" using r1 by simp
  have d2: "fdiv (Fin M) (Fin r) = Fin ?y"
    using M r1 toDouble_normal [OF cpos clo _ chi, of False] by (simp add: fdiv_Fin)
  have c53: "\<bar>?c\<bar> < pow2 53" using cpos cle M by (simp add: pow2_def)
  have "?c \<le> of_int k" using cle assms(4) by simp
  from fl_le_int [OF c53 this] assms(4) have yM: "?y \<le> M" by simp
  have cn: "pow2 (- 1022) \<le> ?c" by (rule pow2_lower [OF _ clo]) simp
  from fl_bounds(3) [OF cpos cn] have ypos: "0 < ?y" .
  have yerr: "\<bar>?y - ?c\<bar> \<le> ?c * pow2 (- 53)" by (rule fl_error_pos [OF cpos cn])
  have "\<bar>?y - M / q\<bar> \<le> 3 * pow2 (- 53) * (M / q)"
    by (rule quot_error [OF _ _ u_small(1) u_small(2) rerr yerr]) (use M q1 in simp_all)
  moreover have "M / q = M * b / a" using assms(1,2) by (simp add: q_def)
  ultimately have "\<bar>?y - M * b / a\<bar> \<le> 3 * pow2 (- 53) * (M * b / a)" by simp
  with d1 d2 ypos yM show ?thesis by simp
qed

lemma resize_tall:
  fixes a b M :: real
  assumes "1 \<le> a" and "a \<le> b" and "b < 2 ^ 32" and "M = of_int k" and "1 \<le> k" and "k \<le> 2 ^ 20"
  shows "\<exists>x. fmul (Fin M) (fdiv (Fin a) (Fin b)) = Fin x \<and> 0 < x \<and> x \<le> M \<and>
             \<bar>x - M * a / b\<bar> \<le> 3 * pow2 (- 53) * (M * a / b)"
proof -
  define q where "q = a / b"
  define r where "r = fl q"
  let ?x = "fl (M * r)"
  have M: "1 \<le> M" "M \<le> 2 ^ 20" using assms(4,5,6) by simp_all
  have q0: "0 < q" using assms(1,2) by (simp add: q_def)
  have q1: "q \<le> 1" using assms(1,2) by (simp add: q_def)
  have "1 / 2 ^ 32 \<le> 1 / b" using assms(1,2,3) by (intro divide_left_mono) simp_all
  also have "\<dots> \<le> q" using assms(1,2) by (simp add: q_def field_simps)
  finally have qlo: "pow2 (- 32) \<le> q" by (simp add: pow2_def)
  have qhi: "q \<le> pow2 0" using q1 by (simp add: pow2_0)
  have d1: "fdiv (Fin a) (Fin b) = Fin r"
    using assms(1,2) toDouble_normal [OF q0 qlo _ qhi, of False]
    by (simp add: fdiv_Fin q_def r_def)
  have q53: "\<bar>q\<bar> < pow2 53" using q0 q1 by (simp add: pow2_def)
  have "q \<le> of_int 1" using q1 by simp
  from fl_le_int [OF q53 this] have r1: "r \<le> 1" by (simp add: r_def)
  have qn: "pow2 (- 1022) \<le> q" by (rule pow2_lower [OF _ qlo]) simp
  from fl_bounds [OF q0 qn] have rlo: "q * (1 - pow2 (- 53)) \<le> r" and rpos: "0 < r"
    by (simp_all add: r_def)
  have rerr: "\<bar>r - q\<bar> \<le> q * pow2 (- 53)"
    unfolding r_def by (rule fl_error_pos [OF q0 qn])
  have "q * pow2 (- 53) \<le> q * (1 / 2)"
    using q0 u_small(2) by (intro mult_left_mono) simp_all
  then have qu: "q * pow2 (- 53) \<le> q / 2" by simp
  have "q - r \<le> \<bar>r - q\<bar>" by simp
  with rerr qu have "q / 2 \<le> r" by linarith
  with qlo have "pow2 (- 32) / 2 \<le> r" by linarith
  moreover have "pow2 (- 33) = pow2 (- 32) / 2" by (simp add: pow2_def)
  ultimately have r33: "pow2 (- 33) \<le> r" by simp
  let ?c = "M * r"
  have cpos: "0 < ?c" using M rpos by simp
  have "M * r \<le> M * 1" using M r1 by (intro mult_left_mono) simp_all
  then have cle: "?c \<le> M" by simp
  have "1 * r \<le> M * r" using M rpos by (intro mult_right_mono) simp_all
  with r33 have clo: "pow2 (- 33) \<le> ?c" by simp
  from cle M(2) have c20: "?c \<le> 2 ^ 20" by linarith
  then have chi: "?c \<le> pow2 20" by (simp add: pow2_def)
  have d2: "fmul (Fin M) (Fin r) = Fin ?x"
    using M rpos toDouble_normal [OF cpos clo _ chi, of False] by (simp add: fmul_Fin)
  from c20 cpos have "\<bar>?c\<bar> < 2 ^ 53" by simp
  then have c53: "\<bar>?c\<bar> < pow2 53" by (simp add: pow2_def)
  have "?c \<le> of_int k" using cle assms(4) by simp
  from fl_le_int [OF c53 this] assms(4) have xM: "?x \<le> M" by simp
  have cn: "pow2 (- 1022) \<le> ?c" by (rule pow2_lower [OF _ clo]) simp
  from fl_bounds(3) [OF cpos cn] have xpos: "0 < ?x" .
  have xerr: "\<bar>?x - M * r\<bar> \<le> M * r * pow2 (- 53)" by (rule fl_error_pos [OF cpos cn])
  have "\<bar>?x - M * q\<bar> \<le> 3 * pow2 (- 53) * (M * q)"
    by (rule prod_error [OF _ q0 u_small(1) u_small(3) rerr xerr]) (use M in simp)
  then have "\<bar>?x - M * a / b\<bar> \<le> 3 * pow2 (- 53) * (M * a / b)" by (simp add: q_def)
  with d1 d2 xpos xM show ?thesis by simp
qed

section \<open>Properties of the canvas path\<close>

lemma toUnsignedLong_ofWord: "toUnsignedLong (ofWord w) = w"
proof -
  have "\<lfloor>real (unat w)\<rfloor> = int (unat w)" by (simp del: of_nat_unat)
  moreover have "(word_of_int (int (unat w)) :: 32 word) = w" by simp
  moreover have "0 \<le> real (unat w)" by (simp del: of_nat_unat)
  ultimately show ?thesis by (simp add: toUnsignedLong_def ofWord_def del: of_nat_unat)
qed

lemma unat_toUnsignedLong:
  assumes "0 \<le> x" and "x \<le> of_int k" and "k \<le> 2 ^ 20"
  shows "unat (toUnsignedLong (Fin x)) \<le> nat k \<and> toUnsignedLong (Fin x) = word_of_int \<lfloor>x\<rfloor>"
proof -
  have f0: "0 \<le> \<lfloor>x\<rfloor>" using assms(1) by simp
  have fk: "\<lfloor>x\<rfloor> \<le> k" using assms(2) by (simp add: floor_le_iff; linarith)
  from assms(3) have "k \<le> 1048576" by simp
  with fk have "\<lfloor>x\<rfloor> < 4294967296" by linarith
  then have "\<lfloor>x\<rfloor> < 2 ^ 32" by simp
  from take_bit_int_eq_self [OF f0 this] have "take_bit 32 \<lfloor>x\<rfloor> = \<lfloor>x\<rfloor>" .
  then have "uint (word_of_int \<lfloor>x\<rfloor> :: 32 word) = \<lfloor>x\<rfloor>" by (simp add: uint_word_of_int_eq)
  then have "unat (word_of_int \<lfloor>x\<rfloor> :: 32 word) = nat \<lfloor>x\<rfloor>" by (simp add: unat_eq_nat_uint)
  with fk f0 assms(1) show ?thesis by (simp add: toUnsignedLong_def)
qed

lemma word_real_bounds: "0 \<le> real (unat (w :: 32 word))" "real (unat (w :: 32 word)) < 2 ^ 32"
proof -
  show "0 \<le> real (unat w)" by (simp del: of_nat_unat)
  have "unat w < 2 ^ LENGTH(32)" by (rule unsigned_less)
  then have "unat w < 4294967296" by simp
  then have "real (unat w) < real 4294967296" by (simp only: of_nat_less_iff)
  then show "real (unat w) < 2 ^ 32" by (simp del: of_nat_unat)
qed


lemma canvasSize_none: "canvasSize LNone width height = (width, height)"
  by (simp add: canvasSize_def maxDimensionOf_def fgt_def)

lemma canvasSize_within:
  assumes "maxDimensionOf level = Fin M"
    and "real (unat w) \<le> M" and "real (unat h) \<le> M"
  shows "canvasSize level (ofWord w) (ofWord h) = (ofWord w, ofWord h)"
  using assms by (simp add: canvasSize_def Let_def ofWord_def fgt_Fin del: of_nat_unat)

lemma canvasSize_wide:
  assumes "maxDimensionOf level = Fin M" and "M = of_int k" and "1 \<le> k" and "k \<le> 2 ^ 20"
    and "unat h < unat w" and "M < real (unat w)"
  shows "\<exists>y. canvasSize level (ofWord w) (ofWord h) = (Fin M, Fin y) \<and> 0 \<le> y \<and> y \<le> M \<and>
           (0 < unat h \<longrightarrow>
              \<bar>y - M * real (unat h) / real (unat w)\<bar>
                \<le> 3 / 2 ^ 53 * (M * real (unat h) / real (unat w)))"
proof -
  define a where "a = real (unat w)"
  define b where "b = real (unat h)"
  have M: "0 < M" using assms(2,3) by simp
  have ab: "b < a" using assms(5) by (simp add: a_def b_def del: of_nat_unat)
  have a32: "a < 2 ^ 32" unfolding a_def by (rule word_real_bounds)
  have b0: "0 \<le> b" unfolding b_def by (rule word_real_bounds)
  have Ma: "M < a" using assms(6) by (simp add: a_def)
  have cs: "canvasSize level (Fin a) (Fin b) = (Fin M, fdiv (Fin M) (fdiv (Fin a) (Fin b)))"
    using assms(1) M Ma ab by (simp add: canvasSize_def Let_def fgt_Fin)
  have u: "pow2 (- 53) = 1 / 2 ^ 53" by (simp add: pow2_def)
  show ?thesis
  proof (cases "b = 0")
    case True
    with Ma M have "fdiv (Fin a) (Fin b) = PosInf"
      by (simp add: fdiv_def isZero_def isInf_def signedInf_def)
    with M have "fdiv (Fin M) (fdiv (Fin a) (Fin b)) = Fin 0"
      by (simp add: fdiv_def isZero_def isInf_def signedZero_def)
    with cs M True show ?thesis
      by (simp add: ofWord_def a_def b_def del: of_nat_unat)
  next
    case False
    then have "0 < unat h" by (simp add: b_def del: of_nat_unat)
    then have b1: "1 \<le> b" by (simp add: b_def del: of_nat_unat)
    from resize_wide [OF b1 ab a32 assms(2,3,4)] obtain y where
      y: "fdiv (Fin M) (fdiv (Fin a) (Fin b)) = Fin y" "0 < y" "y \<le> M"
         "\<bar>y - M * b / a\<bar> \<le> 3 * pow2 (- 53) * (M * b / a)"
      by blast
    from y(4) have "\<bar>y - M * b / a\<bar> \<le> 3 / 2 ^ 53 * (M * b / a)" by (simp add: u)
    with cs y(1,2,3) show ?thesis
      by (auto simp add: ofWord_def a_def b_def simp del: of_nat_unat)
  qed
qed

lemma canvasSize_tall:
  assumes "maxDimensionOf level = Fin M" and "M = of_int k" and "1 \<le> k" and "k \<le> 2 ^ 20"
    and "unat w \<le> unat h" and "M < real (unat h)"
  shows "\<exists>x. canvasSize level (ofWord w) (ofWord h) = (Fin x, Fin M) \<and> 0 \<le> x \<and> x \<le> M \<and>
           (0 < unat w \<longrightarrow>
              \<bar>x - M * real (unat w) / real (unat h)\<bar>
                \<le> 3 / 2 ^ 53 * (M * real (unat w) / real (unat h)))"
proof -
  define a where "a = real (unat w)"
  define b where "b = real (unat h)"
  have M: "0 < M" using assms(2,3) by simp
  have ab: "a \<le> b" using assms(5) by (simp add: a_def b_def del: of_nat_unat)
  have b32: "b < 2 ^ 32" unfolding b_def by (rule word_real_bounds)
  have a0: "0 \<le> a" unfolding a_def by (rule word_real_bounds)
  have Mb: "M < b" using assms(6) by (simp add: b_def)
  have cs: "canvasSize level (Fin a) (Fin b) = (fmul (Fin M) (fdiv (Fin a) (Fin b)), Fin M)"
    using assms(1) M Mb ab by (simp add: canvasSize_def Let_def fgt_Fin)
  have u: "pow2 (- 53) = 1 / 2 ^ 53" by (simp add: pow2_def)
  show ?thesis
  proof (cases "a = 0")
    case True
    with Mb M have "fdiv (Fin a) (Fin b) = Fin 0"
      by (simp add: fdiv_def isZero_def isInf_def signedZero_def)
    with M have "fmul (Fin M) (fdiv (Fin a) (Fin b)) = Fin 0"
      by (simp add: fmul_def isZero_def isInf_def signedZero_def)
    with cs M True show ?thesis
      by (simp add: ofWord_def a_def b_def del: of_nat_unat)
  next
    case False
    then have "0 < unat w" by (simp add: a_def del: of_nat_unat)
    then have a1: "1 \<le> a" by (simp add: a_def del: of_nat_unat)
    from resize_tall [OF a1 ab b32 assms(2,3,4)] obtain x where
      x: "fmul (Fin M) (fdiv (Fin a) (Fin b)) = Fin x" "0 < x" "x \<le> M"
         "\<bar>x - M * a / b\<bar> \<le> 3 * pow2 (- 53) * (M * a / b)"
      by blast
    from x(4) have "\<bar>x - M * a / b\<bar> \<le> 3 / 2 ^ 53 * (M * a / b)" by (simp add: u)
    with cs x(1,2,3) show ?thesis
      by (auto simp add: ofWord_def a_def b_def simp del: of_nat_unat)
  qed
qed

lemma canvasSize_cap:
  assumes "maxDimensionOf level = Fin M" and "M = of_int k" and "1 \<le> k" and "k \<le> 2 ^ 20"
  shows "\<exists>x y. canvasSize level (ofWord w) (ofWord h) = (Fin x, Fin y) \<and> 0 \<le> x \<and> x \<le> M \<and> 0 \<le> y \<and> y \<le> M"
proof (cases "M < real (unat w) \<or> M < real (unat h)")
  case False
  then have "real (unat w) \<le> M" "real (unat h) \<le> M" by simp_all
  from canvasSize_within [OF assms(1) this] word_real_bounds(1) [of w] word_real_bounds(1) [of h]
    this
  show ?thesis by (simp add: ofWord_def del: of_nat_unat)
next
  case True
  have M: "0 \<le> M" using assms(2,3) by simp
  show ?thesis
  proof (cases "unat h < unat w")
    case wide: True
    with True have "M < real (unat w)" by (auto simp del: of_nat_unat)
    from canvasSize_wide [OF assms wide this] M show ?thesis by auto
  next
    case tall: False
    then have le: "unat w \<le> unat h" by simp
    with True have "M < real (unat h)" by (auto simp del: of_nat_unat)
    from canvasSize_tall [OF assms le this] M show ?thesis by auto
  qed
qed

lemma canvas_cap:
  assumes "maxDimensionOf level = Fin M" and "M = of_int k" and "1 \<le> k" and "k \<le> 2 ^ 20"
  shows "(\<exists>x y. canvasSize level (ofWord w) (ofWord h) = (Fin x, Fin y) \<and> 0 \<le> x \<and> x \<le> M \<and> 0 \<le> y \<and> y \<le> M) \<and>
         unat (toUnsignedLong (fst (canvasSize level (ofWord w) (ofWord h)))) \<le> nat k \<and>
         unat (toUnsignedLong (snd (canvasSize level (ofWord w) (ofWord h)))) \<le> nat k"
proof -
  from canvasSize_cap [OF assms] obtain x y where
    c: "canvasSize level (ofWord w) (ofWord h) = (Fin x, Fin y)" and x: "0 \<le> x" "x \<le> M" and y: "0 \<le> y" "y \<le> M"
    by blast
  from x(2) assms(2) have xk: "x \<le> of_int k" by simp
  from y(2) assms(2) have yk: "y \<le> of_int k" by simp
  from unat_toUnsignedLong [OF x(1) xk assms(4)]
  have 1: "unat (toUnsignedLong (Fin x)) \<le> nat k" by (rule conjunct1)
  from unat_toUnsignedLong [OF y(1) yk assms(4)]
  have 2: "unat (toUnsignedLong (Fin y)) \<le> nat k" by (rule conjunct1)
  from c x y 1 2 show ?thesis by simp
qed

text \<open>
  Claim C6, as amended.  On the canvas path (no early return) with an image of \<open>w\<close>
  by \<open>h\<close> pixels: the bytes returned are those \<open>toBlob\<close> produced for the computed
  width and height, the canvas attributes they give, and the MIME type and quality of
  the level.  Under \<open>'high'\<close> neither edge exceeds 1500 and the encoding is JPEG at
  0.5; under \<open>'normal'\<close> neither exceeds 2500 and it is JPEG at 0.75; under \<open>'none'\<close>
  the size is the image's own and the encoding is PNG.  An image within the cap keeps
  its size.  When an image is resized, its longer edge becomes the cap and the other
  edge is computed in doubles: it is within 3 parts in \<open>2 ^ 53\<close> of the cap times the
  shorter edge over the longer one, so the ratio of width to height is the image's
  up to that rounding, not exactly.
\<close>

theorem processImage_general_path:
  assumes "fastPath inp level = None" and "imageLoad env inp = Some (w, h)"
  shows
    "(\<forall>data isPng. processImage env inp level = Inr (data, isPng) \<longrightarrow>
        toBlob env inp (toUnsignedLong (fst (canvasSize level (ofWord w) (ofWord h)))) (toUnsignedLong (snd (canvasSize level (ofWord w) (ofWord h))))
          (fst (canvasSize level (ofWord w) (ofWord h))) (snd (canvasSize level (ofWord w) (ofWord h))) (fst (encoding level)) (snd (encoding level)) = Some data \<and>
        isPng = (level = LNone)) \<and>
     (level = LHigh \<longrightarrow>
        (\<exists>x y. canvasSize level (ofWord w) (ofWord h) = (Fin x, Fin y) \<and> 0 \<le> x \<and> x \<le> 1500 \<and> 0 \<le> y \<and> y \<le> 1500) \<and>
        unat (toUnsignedLong (fst (canvasSize level (ofWord w) (ofWord h)))) \<le> 1500 \<and>
        unat (toUnsignedLong (snd (canvasSize level (ofWord w) (ofWord h)))) \<le> 1500 \<and>
        encoding level = (''image/jpeg'', Fin 0.5)) \<and>
     (level = LNormal \<longrightarrow>
        (\<exists>x y. canvasSize level (ofWord w) (ofWord h) = (Fin x, Fin y) \<and> 0 \<le> x \<and> x \<le> 2500 \<and> 0 \<le> y \<and> y \<le> 2500) \<and>
        unat (toUnsignedLong (fst (canvasSize level (ofWord w) (ofWord h)))) \<le> 2500 \<and>
        unat (toUnsignedLong (snd (canvasSize level (ofWord w) (ofWord h)))) \<le> 2500 \<and>
        encoding level = (''image/jpeg'', Fin 0.75)) \<and>
     (level = LNone \<longrightarrow>
        canvasSize level (ofWord w) (ofWord h) = (ofWord w, ofWord h) \<and>
        toUnsignedLong (fst (canvasSize level (ofWord w) (ofWord h))) = w \<and> toUnsignedLong (snd (canvasSize level (ofWord w) (ofWord h))) = h \<and>
        fst (encoding level) = ''image/png'') \<and>
     (\<forall>M. maxDimensionOf level = Fin M \<and> real (unat w) \<le> M \<and> real (unat h) \<le> M \<longrightarrow>
        canvasSize level (ofWord w) (ofWord h) = (ofWord w, ofWord h) \<and>
        toUnsignedLong (fst (canvasSize level (ofWord w) (ofWord h))) = w \<and> toUnsignedLong (snd (canvasSize level (ofWord w) (ofWord h))) = h) \<and>
     (\<forall>M. maxDimensionOf level = Fin M \<and> 0 < M \<and> unat h < unat w \<and> M < real (unat w) \<longrightarrow>
        (\<exists>y. canvasSize level (ofWord w) (ofWord h) = (Fin M, Fin y) \<and>
           (0 < unat h \<longrightarrow>
              \<bar>y - M * real (unat h) / real (unat w)\<bar>
                \<le> 3 / 2 ^ 53 * (M * real (unat h) / real (unat w))))) \<and>
     (\<forall>M. maxDimensionOf level = Fin M \<and> 0 < M \<and> unat w \<le> unat h \<and> M < real (unat h) \<longrightarrow>
        (\<exists>x. canvasSize level (ofWord w) (ofWord h) = (Fin x, Fin M) \<and>
           (0 < unat w \<longrightarrow>
              \<bar>x - M * real (unat w) / real (unat h)\<bar>
                \<le> 3 / 2 ^ 53 * (M * real (unat w) / real (unat h)))))"
proof -
  let ?cs = "canvasSize level (ofWord w) (ofWord h)"
  have blob: "\<forall>data isPng. processImage env inp level = Inr (data, isPng) \<longrightarrow>
        toBlob env inp (toUnsignedLong (fst ?cs)) (toUnsignedLong (snd ?cs))
          (fst ?cs) (snd ?cs) (fst (encoding level)) (snd (encoding level)) = Some data \<and>
        isPng = (level = LNone)"
    using assms
    by (cases level)
      (auto simp add: processImage_def canvasPath_def encoding_def
        split: prod.splits option.splits if_splits)
  have high: "level = LHigh \<longrightarrow>
        (\<exists>x y. ?cs = (Fin x, Fin y) \<and> 0 \<le> x \<and> x \<le> 1500 \<and> 0 \<le> y \<and> y \<le> 1500) \<and>
        unat (toUnsignedLong (fst ?cs)) \<le> 1500 \<and>
        unat (toUnsignedLong (snd ?cs)) \<le> 1500 \<and>
        encoding level = (''image/jpeg'', Fin 0.5)"
  proof
    assume l: "level = LHigh"
    then have m: "maxDimensionOf level = Fin 1500" by (simp add: maxDimensionOf_def)
    from canvas_cap [OF m, of 1500 w h] l
    show "(\<exists>x y. ?cs = (Fin x, Fin y) \<and> 0 \<le> x \<and> x \<le> 1500 \<and> 0 \<le> y \<and> y \<le> 1500) \<and>
        unat (toUnsignedLong (fst ?cs)) \<le> 1500 \<and>
        unat (toUnsignedLong (snd ?cs)) \<le> 1500 \<and>
        encoding level = (''image/jpeg'', Fin 0.5)"
      by (simp add: encoding_def)
  qed
  have normal: "level = LNormal \<longrightarrow>
        (\<exists>x y. ?cs = (Fin x, Fin y) \<and> 0 \<le> x \<and> x \<le> 2500 \<and> 0 \<le> y \<and> y \<le> 2500) \<and>
        unat (toUnsignedLong (fst ?cs)) \<le> 2500 \<and>
        unat (toUnsignedLong (snd ?cs)) \<le> 2500 \<and>
        encoding level = (''image/jpeg'', Fin 0.75)"
  proof
    assume l: "level = LNormal"
    then have m: "maxDimensionOf level = Fin 2500" by (simp add: maxDimensionOf_def)
    from canvas_cap [OF m, of 2500 w h] l
    show "(\<exists>x y. ?cs = (Fin x, Fin y) \<and> 0 \<le> x \<and> x \<le> 2500 \<and> 0 \<le> y \<and> y \<le> 2500) \<and>
        unat (toUnsignedLong (fst ?cs)) \<le> 2500 \<and>
        unat (toUnsignedLong (snd ?cs)) \<le> 2500 \<and>
        encoding level = (''image/jpeg'', Fin 0.75)"
      by (simp add: encoding_def)
  qed
  have none: "level = LNone \<longrightarrow>
        ?cs = (ofWord w, ofWord h) \<and>
        toUnsignedLong (fst ?cs) = w \<and> toUnsignedLong (snd ?cs) = h \<and>
        fst (encoding level) = ''image/png''"
    by (simp add: canvasSize_none toUnsignedLong_ofWord encoding_def)
  have within: "\<forall>M. maxDimensionOf level = Fin M \<and> real (unat w) \<le> M \<and> real (unat h) \<le> M \<longrightarrow>
        ?cs = (ofWord w, ofWord h) \<and>
        toUnsignedLong (fst ?cs) = w \<and> toUnsignedLong (snd ?cs) = h"
  proof (intro allI impI)
    fix M
    assume "maxDimensionOf level = Fin M \<and> real (unat w) \<le> M \<and> real (unat h) \<le> M"
    then have "?cs = (ofWord w, ofWord h)" using canvasSize_within by blast
    then show "?cs = (ofWord w, ofWord h) \<and>
        toUnsignedLong (fst ?cs) = w \<and> toUnsignedLong (snd ?cs) = h"
      by (simp add: toUnsignedLong_ofWord)
  qed
  have caps: "\<And>M. maxDimensionOf level = Fin M \<Longrightarrow> 0 < M \<Longrightarrow>
                 \<exists>k. M = of_int k \<and> 1 \<le> k \<and> k \<le> 2 ^ 20"
  proof -
    fix M assume m: "maxDimensionOf level = Fin M" and "0 < M"
    then have "M = of_int 1500 \<or> M = of_int 2500"
      by (cases level) (simp_all add: maxDimensionOf_def)
    then show "\<exists>k. M = of_int k \<and> 1 \<le> k \<and> k \<le> 2 ^ 20"
    proof
      assume "M = of_int 1500"
      then have "M = of_int 1500 \<and> (1::int) \<le> 1500 \<and> (1500::int) \<le> 2 ^ 20" by simp
      then show ?thesis by (rule exI)
    next
      assume "M = of_int 2500"
      then have "M = of_int 2500 \<and> (1::int) \<le> 2500 \<and> (2500::int) \<le> 2 ^ 20" by simp
      then show ?thesis by (rule exI)
    qed
  qed
  have wide: "\<forall>M. maxDimensionOf level = Fin M \<and> 0 < M \<and> unat h < unat w \<and> M < real (unat w) \<longrightarrow>
        (\<exists>y. ?cs = (Fin M, Fin y) \<and>
           (0 < unat h \<longrightarrow>
              \<bar>y - M * real (unat h) / real (unat w)\<bar>
                \<le> 3 / 2 ^ 53 * (M * real (unat h) / real (unat w))))"
  proof (intro allI impI)
    fix M
    assume h: "maxDimensionOf level = Fin M \<and> 0 < M \<and> unat h < unat w \<and> M < real (unat w)"
    with caps obtain k where k: "M = of_int k" "1 \<le> k" "k \<le> 2 ^ 20" by blast
    from h have h1: "maxDimensionOf level = Fin M" and h2: "unat h < unat w"
      and h3: "M < real (unat w)" by blast+
    from canvasSize_wide [OF h1 k h2 h3] obtain y where
      "canvasSize level (ofWord w) (ofWord h) = (Fin M, Fin y)"
      "0 < unat h \<longrightarrow>
              \<bar>y - M * real (unat h) / real (unat w)\<bar>
                \<le> 3 / 2 ^ 53 * (M * real (unat h) / real (unat w))"
      by (elim exE conjE)
    then show "\<exists>y. ?cs = (Fin M, Fin y) \<and>
           (0 < unat h \<longrightarrow>
              \<bar>y - M * real (unat h) / real (unat w)\<bar>
                \<le> 3 / 2 ^ 53 * (M * real (unat h) / real (unat w)))"
      by (intro exI conjI)
  qed
  have tall: "\<forall>M. maxDimensionOf level = Fin M \<and> 0 < M \<and> unat w \<le> unat h \<and> M < real (unat h) \<longrightarrow>
        (\<exists>x. ?cs = (Fin x, Fin M) \<and>
           (0 < unat w \<longrightarrow>
              \<bar>x - M * real (unat w) / real (unat h)\<bar>
                \<le> 3 / 2 ^ 53 * (M * real (unat w) / real (unat h))))"
  proof (intro allI impI)
    fix M
    assume h: "maxDimensionOf level = Fin M \<and> 0 < M \<and> unat w \<le> unat h \<and> M < real (unat h)"
    with caps obtain k where k: "M = of_int k" "1 \<le> k" "k \<le> 2 ^ 20" by blast
    from h have h1: "maxDimensionOf level = Fin M" and h2: "unat w \<le> unat h"
      and h3: "M < real (unat h)" by blast+
    from canvasSize_tall [OF h1 k h2 h3] obtain x where
      "canvasSize level (ofWord w) (ofWord h) = (Fin x, Fin M)"
      "0 < unat w \<longrightarrow>
              \<bar>x - M * real (unat w) / real (unat h)\<bar>
                \<le> 3 / 2 ^ 53 * (M * real (unat w) / real (unat h))"
      by (elim exE conjE)
    then show "\<exists>x. ?cs = (Fin x, Fin M) \<and>
           (0 < unat w \<longrightarrow>
              \<bar>x - M * real (unat w) / real (unat h)\<bar>
                \<le> 3 / 2 ^ 53 * (M * real (unat w) / real (unat h)))"
      by (intro exI conjI)
  qed
  from blob high normal none within wide tall show ?thesis by blast
qed

lemma ofWord_numeral:
  "ofWord 4000 = Fin 4000" "ofWord 2000 = Fin 2000" "ofWord 3000 = Fin 3000" "ofWord 62 = Fin 62"
  by (simp_all add: ofWord_def)

lemma toDouble_2: "toDouble False 2 = Fin 2"
  using toDouble_int [of 2 False] by (simp add: pow2_def)

lemma toDouble_750: "toDouble False 750 = Fin 750"
  using toDouble_int [of 750 False] by (simp add: pow2_def)

lemma canvasSize_4000_2000: "canvasSize LHigh (ofWord 4000) (ofWord 2000) = (Fin 1500, Fin 750)"
  by (simp add: canvasSize_def maxDimensionOf_def ofWord_numeral fgt_Fin fdiv_Fin
      toDouble_2 toDouble_750)

lemma fl_3000_62: "fl (3000 / 62) = 6809878468806194 / 2 ^ 47"
proof -
  have "fl (3000 / 62) = of_int 6809878468806194 * pow2 (- 47)"
    by (rule fl_at) (simp_all add: pow2_def roundTiesToEven_def)
  then show ?thesis by (simp add: pow2_def)
qed

lemma fl_1500_ratio:
  "fl (1500 / (6809878468806194 / 2 ^ 47)) = 8725724278030335 / 2 ^ 48"
proof -
  have "fl (1500 / (6809878468806194 / 2 ^ 47)) = of_int 8725724278030335 * pow2 (- 48)"
    by (rule fl_at) (simp_all add: pow2_def roundTiesToEven_def)
  then show ?thesis by (simp add: pow2_def)
qed

lemma toDouble_at:
  assumes "fl x = y" and "y \<noteq> 0" and "\<bar>y\<bar> < 2 ^ 64"
  shows "toDouble neg x = Fin y"
proof -
  have "pow2 64 < pow2 1024" by (simp add: pow2_less_iff)
  moreover have "pow2 64 = 2 ^ 64" by (simp add: pow2_def)
  ultimately have "\<bar>y\<bar> < pow2 1024" using assms(3) by linarith
  with assms(1,2) show ?thesis by (simp add: toDouble_def Let_def)
qed

lemma canvasSize_3000_62:
  "canvasSize LHigh (ofWord 3000) (ofWord 62) = (Fin 1500, Fin (8725724278030335 / 2 ^ 48))"
proof -
  have r: "fdiv (Fin 3000) (Fin 62) = Fin (6809878468806194 / 2 ^ 47)"
    using toDouble_at [OF fl_3000_62, of False] by (simp add: fdiv_Fin)
  have "fdiv (Fin 1500) (Fin (6809878468806194 / 2 ^ 47)) = Fin (8725724278030335 / 2 ^ 48)"
    using toDouble_at [OF fl_1500_ratio, of False] by (simp add: fdiv_Fin)
  with r show ?thesis
    by (simp add: canvasSize_def maxDimensionOf_def ofWord_numeral fgt_Fin)
qed


lemma sample_imageLoad:
  "imageLoad sampleEnv (FromBytes pngBytes) = Some (4000, 2000)"
  "imageLoad sampleEnv (FromBytes jpgBytes) = Some (3000, 62)"
  by (simp_all add: sampleEnv_def jpgBytes_def pngBytes_def)

lemma sample_processImage_high:
  "processImage sampleEnv (FromBytes pngBytes) LHigh = Inr (jpgBytes, False)"
proof -
  have "toBlob sampleEnv (FromBytes pngBytes) (toUnsignedLong (Fin 1500))
          (toUnsignedLong (Fin 750)) (Fin 1500) (Fin 750) ''image/jpeg'' (Fin 0.5) = Some jpgBytes"
    by (simp add: sampleEnv_def)
  moreover have "getContext sampleEnv (toUnsignedLong (Fin 1500)) (toUnsignedLong (Fin 750))"
    by (simp add: sampleEnv_def)
  ultimately show ?thesis
    by (simp add: processImage_def fastPath_def canvasPath_def sample_imageLoad
        canvasSize_4000_2000 encoding_def)
qed

theorem processImage_general_path_witness:
  "fastPath (FromBytes pngBytes) LHigh = None \<and>
   imageLoad sampleEnv (FromBytes pngBytes) = Some (4000, 2000) \<and>
   processImage sampleEnv (FromBytes pngBytes) LHigh = Inr (jpgBytes, False) \<and>
   canvasSize LHigh (ofWord 4000) (ofWord 2000) = (Fin 1500, Fin 750) \<and>
   toBlob sampleEnv (FromBytes pngBytes) (toUnsignedLong (Fin 1500)) (toUnsignedLong (Fin 750))
     (Fin 1500) (Fin 750) ''image/jpeg'' (Fin 0.5) = Some jpgBytes \<and>
   unat (toUnsignedLong (Fin 1500)) \<le> 1500 \<and> unat (toUnsignedLong (Fin 750)) \<le> 1500 \<and>
   canvasSize LNormal (ofWord 4000) (ofWord 2000) \<noteq> (ofWord 4000, ofWord 2000) \<and>
   canvasSize LNone (ofWord 4000) (ofWord 2000) = (ofWord 4000, ofWord 2000)"
proof -
  have a: "fastPath (FromBytes pngBytes) LHigh = None" by (simp add: fastPath_def)
  have a': "fastPath (FromBytes pngBytes) LNormal = None" by (simp add: fastPath_def)
  have a'': "fastPath (FromBytes pngBytes) LNone = None" by (simp add: fastPath_def)
  note t = processImage_general_path [OF a sample_imageLoad(1)]
  from t sample_processImage_high
  have blob: "toBlob sampleEnv (FromBytes pngBytes)
          (toUnsignedLong (fst (canvasSize LHigh (ofWord 4000) (ofWord 2000))))
          (toUnsignedLong (snd (canvasSize LHigh (ofWord 4000) (ofWord 2000))))
          (fst (canvasSize LHigh (ofWord 4000) (ofWord 2000)))
          (snd (canvasSize LHigh (ofWord 4000) (ofWord 2000)))
          (fst (encoding LHigh)) (snd (encoding LHigh)) = Some jpgBytes"
    by blast
  from t have caps: "unat (toUnsignedLong (fst (canvasSize LHigh (ofWord 4000) (ofWord 2000)))) \<le> 1500 \<and>
        unat (toUnsignedLong (snd (canvasSize LHigh (ofWord 4000) (ofWord 2000)))) \<le> 1500 \<and>
        encoding LHigh = (''image/jpeg'', Fin 0.5)"
    by blast
  have m: "maxDimensionOf LNormal = Fin 2500" by (simp add: maxDimensionOf_def)
  have "(0::real) < 2500 \<and> unat (2000 :: 32 word) < unat (4000 :: 32 word) \<and>
        (2500::real) < real (unat (4000 :: 32 word))" by simp
  with processImage_general_path [OF a' sample_imageLoad(1)] m
  obtain y where "canvasSize LNormal (ofWord 4000) (ofWord 2000) = (Fin 2500, Fin y)"
    by blast
  then have n: "canvasSize LNormal (ofWord 4000) (ofWord 2000) \<noteq> (ofWord 4000, ofWord 2000)"
    by (simp add: ofWord_numeral)
  from processImage_general_path [OF a'' sample_imageLoad(1)]
  have z: "canvasSize LNone (ofWord 4000) (ofWord 2000) = (ofWord 4000, ofWord 2000)" by blast
  from a sample_imageLoad(1) sample_processImage_high canvasSize_4000_2000 blob caps n z
  show ?thesis by simp
qed

text \<open>
  Claim C6 as it is written fails on the ratio.  A 3000 by 62 image under \<open>'high'\<close>
  is given the height \<open>1500 / (3000 / 62)\<close> in doubles, which is a little less than
  31: the width to height ratio is not the image's, and the canvas, whose height is
  an integer, is 30 high.
\<close>

theorem canvasSize_ratio_counterexample:
  "imageLoad sampleEnv (FromBytes jpgBytes) = Some (3000, 62) \<and>
   canvasSize LHigh (ofWord 3000) (ofWord 62) = (Fin 1500, Fin (8725724278030335 / 2 ^ 48)) \<and>
   (1500::real) / (8725724278030335 / 2 ^ 48) \<noteq> 3000 / 62 \<and>
   toUnsignedLong (Fin (8725724278030335 / 2 ^ 48)) = 30"
  by (simp add: sample_imageLoad canvasSize_3000_62 toUnsignedLong_def)

section \<open>Page geometry\<close>

lemma fl_595_28: "fl 595.28 = 5236138254259978 / 2 ^ 43"
proof -
  have "fl 595.28 = of_int 5236138254259978 * pow2 (- 43)"
    by (rule fl_at) (simp_all add: pow2_def roundTiesToEven_def)
  then show ?thesis by (simp add: pow2_def)
qed

lemma TARGET_WIDTH_value: "TARGET_WIDTH = Fin (5236138254259978 / 2 ^ 43)"
  unfolding TARGET_WIDTH_def using toDouble_at [OF fl_595_28, of False] by simp

lemma scaled_height:
  fixes a b :: real
  assumes "1 \<le> a" and "a \<le> 2 ^ 32" and "1 \<le> b" and "b \<le> 2 ^ 32"
  shows "\<exists>H. fmul (Fin b) (fdiv TARGET_WIDTH (Fin a)) = Fin H \<and> 0 < H \<and>
             \<bar>H / valueOf TARGET_WIDTH - b / a\<bar> \<le> 3 / 2 ^ 53 * (b / a)"
proof -
  define T :: real where "T = 5236138254259978 / 2 ^ 43"
  define q where "q = T / a"
  define r where "r = fl q"
  have T: "595 < T" "T < 596" by (simp_all add: T_def)
  have tw: "TARGET_WIDTH = Fin T" by (simp add: TARGET_WIDTH_value T_def)
  have q0: "0 < q" using T assms(1) by (simp add: q_def)
  have "512 / 2 ^ 32 \<le> T / 2 ^ 32" using T by simp
  also have "\<dots> \<le> T / a" using assms(1,2) T by (intro divide_left_mono) simp_all
  finally have qlo: "pow2 (- 23) \<le> q" by (simp add: pow2_def q_def)
  have "T / a \<le> T / 1" using assms(1) T by (intro divide_left_mono) simp_all
  with T have q596: "q \<le> 596" by (simp add: q_def)
  then have qhi: "q \<le> pow2 10" by (simp add: pow2_def)
  have d1: "fdiv TARGET_WIDTH (Fin a) = Fin r"
    using assms(1) T toDouble_normal [OF q0 qlo _ qhi, of False]
    by (simp add: tw fdiv_Fin q_def r_def)
  have qn: "pow2 (- 1022) \<le> q" by (rule pow2_lower [OF _ qlo]) simp
  from fl_bounds [OF q0 qn] have rpos: "0 < r" by (simp add: r_def)
  have rerr: "\<bar>r - q\<bar> \<le> q * pow2 (- 53)"
    unfolding r_def by (rule fl_error_pos [OF q0 qn])
  have "q * pow2 (- 53) \<le> q * (1 / 2)"
    using q0 u_small(2) by (intro mult_left_mono) simp_all
  then have qu: "q * pow2 (- 53) \<le> q / 2" by simp
  have "q - r \<le> \<bar>r - q\<bar>" by simp
  with rerr qu have rhalf: "q / 2 \<le> r" by linarith
  have "r - q \<le> \<bar>r - q\<bar>" by simp
  with rerr qu q0 have r2q: "r \<le> 2 * q" by linarith
  from rhalf qlo have "pow2 (- 23) / 2 \<le> r" by linarith
  moreover have "pow2 (- 24) = pow2 (- 23) / 2" by (simp add: pow2_def)
  ultimately have r24: "pow2 (- 24) \<le> r" by simp
  from r2q q596 have r11: "r \<le> 2 ^ 11" by simp
  define c where "c = b * r"
  have cpos: "0 < c" using assms(3) rpos by (simp add: c_def)
  have "1 * r \<le> b * r" using assms(3) rpos by (intro mult_right_mono) simp_all
  with r24 have clo: "pow2 (- 24) \<le> c" by (simp add: c_def)
  have "b * r \<le> 2 ^ 32 * 2 ^ 11"
    using assms(3,4) rpos r11 by (intro mult_mono) simp_all
  then have chi: "c \<le> pow2 43" by (simp add: pow2_def c_def)
  have d2: "fmul (Fin b) (Fin r) = Fin (fl c)"
    using assms(3) rpos toDouble_normal [OF cpos clo _ chi, of False]
    by (simp add: fmul_Fin c_def)
  have cn: "pow2 (- 1022) \<le> c" by (rule pow2_lower [OF _ clo]) simp
  from fl_bounds(3) [OF cpos cn] have Hpos: "0 < fl c" .
  have "\<bar>fl c - c\<bar> \<le> c * pow2 (- 53)" by (rule fl_error_pos [OF cpos cn])
  then have Herr: "\<bar>fl c - b * r\<bar> \<le> b * r * pow2 (- 53)" by (simp add: c_def)
  have b0: "0 < b" using assms(3) by simp
  have e: "\<bar>fl c - b * q\<bar> \<le> 3 * pow2 (- 53) * (b * q)"
    by (rule prod_error [OF b0 q0 u_small(1) u_small(3) rerr Herr])
  have T0: "0 < T" using T by simp
  have "fl c / T - b / a = (fl c - b * q) / T"
    using T0 assms(1) by (simp add: q_def field_simps)
  then have "\<bar>fl c / T - b / a\<bar> = \<bar>fl c - b * q\<bar> / T"
    using T0 by simp
  also have "\<dots> \<le> (3 * pow2 (- 53) * (b * q)) / T"
    using e T0 by (intro divide_right_mono) simp_all
  also have "\<dots> = 3 / 2 ^ 53 * (b / a)"
    using T0 assms(1) by (simp add: q_def pow2_def)
  finally have bound: "\<bar>fl c / T - b / a\<bar> \<le> 3 / 2 ^ 53 * (b / a)" .
  have v: "valueOf TARGET_WIDTH = T" by (simp add: TARGET_WIDTH_value T_def)
  have fin: "fmul (Fin b) (fdiv TARGET_WIDTH (Fin a)) = Fin (fl c)" by (simp only: d1 d2)
  from fin Hpos bound show ?thesis unfolding v by blast
qed


lemma page_scaled:
  assumes "p = scaledPageOf c"
  shows "page_width p = TARGET_WIDTH \<and>
              (\<exists>c. drawings p = [\<lparr>subject = c, at_x = Fin 0, at_y = Fin 0,
                                   draw_width = page_width p, draw_height = page_height p\<rparr>] \<and>
                   page_height p = fmul (intrinsicHeight c) (fdiv TARGET_WIDTH (intrinsicWidth c)) \<and>
                   (\<forall>a b. intrinsicWidth c = Fin a \<and> intrinsicHeight c = Fin b \<and>
                          1 \<le> a \<and> a \<le> 2 ^ 32 \<and> 1 \<le> b \<and> b \<le> 2 ^ 32 \<longrightarrow>
                      (\<exists>H. page_height p = Fin H \<and> 0 < H \<and>
                           \<bar>H / valueOf TARGET_WIDTH - b / a\<bar> \<le> 3 / 2 ^ 53 * (b / a))))"
proof -
  have h: "\<forall>a b. intrinsicWidth c = Fin a \<and> intrinsicHeight c = Fin b \<and>
                          1 \<le> a \<and> a \<le> 2 ^ 32 \<and> 1 \<le> b \<and> b \<le> 2 ^ 32 \<longrightarrow>
                      (\<exists>H. page_height p = Fin H \<and> 0 < H \<and>
                           \<bar>H / valueOf TARGET_WIDTH - b / a\<bar> \<le> 3 / 2 ^ 53 * (b / a))"
  proof (intro allI impI)
    fix a b
    assume "intrinsicWidth c = Fin a \<and> intrinsicHeight c = Fin b \<and>
                          1 \<le> a \<and> a \<le> 2 ^ 32 \<and> 1 \<le> b \<and> b \<le> 2 ^ 32"
    then have c: "intrinsicWidth c = Fin a" "intrinsicHeight c = Fin b"
      and r: "1 \<le> a" "a \<le> 2 ^ 32" "1 \<le> b" "b \<le> 2 ^ 32" by simp_all
    from scaled_height [OF r] c assms
    show "\<exists>H. page_height p = Fin H \<and> 0 < H \<and>
                           \<bar>H / valueOf TARGET_WIDTH - b / a\<bar> \<le> 3 / 2 ^ 53 * (b / a)"
      by simp
  qed
  have "drawings p = [\<lparr>subject = c, at_x = Fin 0, at_y = Fin 0,
                                   draw_width = page_width p, draw_height = page_height p\<rparr>] \<and>
                   page_height p = fmul (intrinsicHeight c) (fdiv TARGET_WIDTH (intrinsicWidth c))"
    by (simp add: assms)
  moreover have "page_width p = TARGET_WIDTH" by (simp add: assms)
  ultimately show ?thesis using h by blast
qed

lemma addEmbeddedPage_single: "addEmbeddedPage [] ep = [scaledPageOf (EmbeddedPage ep)]"
  by (simp add: addEmbeddedPage_def Let_def)

lemma addImagePage_single: "addImagePage [] img = [scaledPageOf (EmbeddedImage img)]"
  by (simp add: addImagePage_def Let_def)

lemma pagesOf_cases:
  assumes "p \<in> set (pagesOf env level fd)"
  shows "\<exists>c. p = scaledPageOf c"
proof (cases "ftype fd = Pdf")
  case True
  with assms show ?thesis
    by (auto simp add: pagesOf_def processFile_def foldl_addEmbeddedPage [of "[]"]
        addEmbeddedPage_single split: sum.splits)
next
  case False
  with assms show ?thesis
    by (auto simp add: pagesOf_def processFile_def Let_def addImagePage_single
        split: sum.splits prod.splits)
qed

lemma pagesOf_scaled:
  assumes "p \<in> set (pagesOf env level fd)"
  shows "page_width p = TARGET_WIDTH \<and>
              (\<exists>c. drawings p = [\<lparr>subject = c, at_x = Fin 0, at_y = Fin 0,
                                   draw_width = page_width p, draw_height = page_height p\<rparr>] \<and>
                   page_height p = fmul (intrinsicHeight c) (fdiv TARGET_WIDTH (intrinsicWidth c)) \<and>
                   (\<forall>a b. intrinsicWidth c = Fin a \<and> intrinsicHeight c = Fin b \<and>
                          1 \<le> a \<and> a \<le> 2 ^ 32 \<and> 1 \<le> b \<and> b \<le> 2 ^ 32 \<longrightarrow>
                      (\<exists>H. page_height p = Fin H \<and> 0 < H \<and>
                           \<bar>H / valueOf TARGET_WIDTH - b / a\<bar> \<le> 3 / 2 ^ 53 * (b / a))))"
  using pagesOf_cases [OF assms] page_scaled by blast

text \<open>
  Claim C1, as amended.  Every page added to the merged document, whether it shows an
  embedded PDF page or an embedded image, has the width \<open>TARGET_WIDTH\<close>, the double
  that the literal 595.28 denotes, and the height that the double operations give for
  the content's height times (\<open>TARGET_WIDTH\<close> divided by the content's width).  One
  thing is drawn on it, at (0, 0), as wide and as high as the page.  The ratio of the
  page's height to its width is the content's ratio up to the rounding of the two
  operations: for a content width and height between 1 and \<open>2 ^ 32\<close> the two ratios
  differ by at most 3 parts in \<open>2 ^ 53\<close>.  This holds for the pages each processed
  input appends, and so for every page of the document the loop hands to \<open>save\<close>.
\<close>

theorem pages_scaled_to_target_width:
  "TARGET_WIDTH = Fin (5236138254259978 / 2 ^ 43) \<and>
   \<bar>5236138254259978 / 2 ^ 43 - (595.28::real)\<bar> \<le> 1 / 2 ^ 44 \<and>
   (\<forall>mergedPdf'. processFile env level fd mergedPdf = Inr mergedPdf' \<longrightarrow>
      (\<exists>ps. mergedPdf' = mergedPdf @ ps \<and>
         (\<forall>p\<in>set ps.
              page_width p = TARGET_WIDTH \<and>
              (\<exists>c. drawings p = [\<lparr>subject = c, at_x = Fin 0, at_y = Fin 0,
                                   draw_width = page_width p, draw_height = page_height p\<rparr>] \<and>
                   page_height p = fmul (intrinsicHeight c) (fdiv TARGET_WIDTH (intrinsicWidth c)) \<and>
                   (\<forall>a b. intrinsicWidth c = Fin a \<and> intrinsicHeight c = Fin b \<and>
                          1 \<le> a \<and> a \<le> 2 ^ 32 \<and> 1 \<le> b \<and> b \<le> 2 ^ 32 \<longrightarrow>
                      (\<exists>H. page_height p = Fin H \<and> 0 < H \<and>
                           \<bar>H / valueOf TARGET_WIDTH - b / a\<bar> \<le> 3 / 2 ^ 53 * (b / a))))))) \<and>
   (\<forall>doc. snd (mergeLoop env level (length files) 0 files [] []) = Inr doc \<longrightarrow>
      (\<forall>p\<in>set doc.
              page_width p = TARGET_WIDTH \<and>
              (\<exists>c. drawings p = [\<lparr>subject = c, at_x = Fin 0, at_y = Fin 0,
                                   draw_width = page_width p, draw_height = page_height p\<rparr>] \<and>
                   page_height p = fmul (intrinsicHeight c) (fdiv TARGET_WIDTH (intrinsicWidth c)) \<and>
                   (\<forall>a b. intrinsicWidth c = Fin a \<and> intrinsicHeight c = Fin b \<and>
                          1 \<le> a \<and> a \<le> 2 ^ 32 \<and> 1 \<le> b \<and> b \<le> 2 ^ 32 \<longrightarrow>
                      (\<exists>H. page_height p = Fin H \<and> 0 < H \<and>
                           \<bar>H / valueOf TARGET_WIDTH - b / a\<bar> \<le> 3 / 2 ^ 53 * (b / a))))))"
proof (intro conjI allI impI)
  show "TARGET_WIDTH = Fin (5236138254259978 / 2 ^ 43)" by (rule TARGET_WIDTH_value)
  show "\<bar>5236138254259978 / 2 ^ 43 - (595.28::real)\<bar> \<le> 1 / 2 ^ 44" by simp
next
  fix mergedPdf'
  assume "processFile env level fd mergedPdf = Inr mergedPdf'"
  from processFile_pagesOf [OF this]
  have "mergedPdf' = mergedPdf @ pagesOf env level fd" by simp
  with pagesOf_scaled [of _ env level fd]
  show "\<exists>ps. mergedPdf' = mergedPdf @ ps \<and>
         (\<forall>p\<in>set ps.
              page_width p = TARGET_WIDTH \<and>
              (\<exists>c. drawings p = [\<lparr>subject = c, at_x = Fin 0, at_y = Fin 0,
                                   draw_width = page_width p, draw_height = page_height p\<rparr>] \<and>
                   page_height p = fmul (intrinsicHeight c) (fdiv TARGET_WIDTH (intrinsicWidth c)) \<and>
                   (\<forall>a b. intrinsicWidth c = Fin a \<and> intrinsicHeight c = Fin b \<and>
                          1 \<le> a \<and> a \<le> 2 ^ 32 \<and> 1 \<le> b \<and> b \<le> 2 ^ 32 \<longrightarrow>
                      (\<exists>H. page_height p = Fin H \<and> 0 < H \<and>
                           \<bar>H / valueOf TARGET_WIDTH - b / a\<bar> \<le> 3 / 2 ^ 53 * (b / a)))))"
    by blast
next
  fix doc
  assume ok: "snd (mergeLoop env level (length files) 0 files [] []) = Inr doc"
  from mergeLoop_Inr_all [OF ok]
  have all: "\<forall>fd\<in>set files. \<exists>ps. processFile env level fd [] = Inr ps" .
  have "mergeLoop env level (length files) 0 files [] [] =
           ([] @ map (\<lambda>j. (processingMessage (0 + j) (name (ufile (files ! j))),
                       Math_round (fmul (fdiv (ofNat (0 + j + 1)) (ofNat (length files))) (Fin 100))))
              [0..<length files],
            Inr ([] @ concat (map (pagesOf env level) files)))"
    by (rule mergeLoop_success [OF all])
  with ok have doc: "doc = concat (map (pagesOf env level) files)" by simp
  show "\<forall>p\<in>set doc.
              page_width p = TARGET_WIDTH \<and>
              (\<exists>c. drawings p = [\<lparr>subject = c, at_x = Fin 0, at_y = Fin 0,
                                   draw_width = page_width p, draw_height = page_height p\<rparr>] \<and>
                   page_height p = fmul (intrinsicHeight c) (fdiv TARGET_WIDTH (intrinsicWidth c)) \<and>
                   (\<forall>a b. intrinsicWidth c = Fin a \<and> intrinsicHeight c = Fin b \<and>
                          1 \<le> a \<and> a \<le> 2 ^ 32 \<and> 1 \<le> b \<and> b \<le> 2 ^ 32 \<longrightarrow>
                      (\<exists>H. page_height p = Fin H \<and> 0 < H \<and>
                           \<bar>H / valueOf TARGET_WIDTH - b / a\<bar> \<le> 3 / 2 ^ 53 * (b / a))))"
  proof
    fix p assume "p \<in> set doc"
    with doc obtain g where "p \<in> set (pagesOf env level g)" by auto
    then show "page_width p = TARGET_WIDTH \<and>
              (\<exists>c. drawings p = [\<lparr>subject = c, at_x = Fin 0, at_y = Fin 0,
                                   draw_width = page_width p, draw_height = page_height p\<rparr>] \<and>
                   page_height p = fmul (intrinsicHeight c) (fdiv TARGET_WIDTH (intrinsicWidth c)) \<and>
                   (\<forall>a b. intrinsicWidth c = Fin a \<and> intrinsicHeight c = Fin b \<and>
                          1 \<le> a \<and> a \<le> 2 ^ 32 \<and> 1 \<le> b \<and> b \<le> 2 ^ 32 \<longrightarrow>
                      (\<exists>H. page_height p = Fin H \<and> 0 < H \<and>
                           \<bar>H / valueOf TARGET_WIDTH - b / a\<bar> \<le> 3 / 2 ^ 53 * (b / a))))"
      by (rule pagesOf_scaled)
  qed
qed

lemma sample_pagesOf_png:
  "pagesOf sampleEnv LNone samplePng =
     [scaledPageOf (EmbeddedImage \<lparr>img_bytes = pngBytes, img_isPng = True,
                                   img_width = Fin 600, img_height = Fin 300\<rparr>)]"
  by (simp add: pagesOf_def sample_processFile_png)

lemma sample_loop:
  "snd (mergeLoop sampleEnv LNone (length [samplePdf, samplePng]) 0 [samplePdf, samplePng] [] [])
     = Inr (concat (map (pagesOf sampleEnv LNone) [samplePdf, samplePng]))"
  using mergeFiles_Inr [OF sample_merge] by simp

theorem pages_scaled_to_target_width_witness:
  "snd (mergeLoop sampleEnv LNone (length [samplePdf, samplePng]) 0 [samplePdf, samplePng] [] [])
     = Inr (concat (map (pagesOf sampleEnv LNone) [samplePdf, samplePng])) \<and>
   page_width (hd (pagesOf sampleEnv LNone samplePng)) = Fin (5236138254259978 / 2 ^ 43) \<and>
   page_height (hd (pagesOf sampleEnv LNone samplePng))
     = fmul (Fin 300) (fdiv TARGET_WIDTH (Fin 600)) \<and>
   (\<exists>H. page_height (hd (pagesOf sampleEnv LNone samplePng)) = Fin H \<and> 0 < H \<and>
        \<bar>H / valueOf TARGET_WIDTH - 300 / 600\<bar> \<le> 3 / 2 ^ 53 * (300 / 600))"
proof -
  let ?p = "hd (pagesOf sampleEnv LNone samplePng)"
  note t = pages_scaled_to_target_width [of sampleEnv LNone samplePng "[]" "[samplePdf, samplePng]"]
  from t have tw: "TARGET_WIDTH = Fin (5236138254259978 / 2 ^ 43)" by (rule conjunct1)
  from t sample_loop
  have all: "\<forall>p\<in>set (concat (map (pagesOf sampleEnv LNone) [samplePdf, samplePng])).
              page_width p = TARGET_WIDTH \<and>
              (\<exists>c. drawings p = [\<lparr>subject = c, at_x = Fin 0, at_y = Fin 0,
                                   draw_width = page_width p, draw_height = page_height p\<rparr>] \<and>
                   page_height p = fmul (intrinsicHeight c) (fdiv TARGET_WIDTH (intrinsicWidth c)) \<and>
                   (\<forall>a b. intrinsicWidth c = Fin a \<and> intrinsicHeight c = Fin b \<and>
                          1 \<le> a \<and> a \<le> 2 ^ 32 \<and> 1 \<le> b \<and> b \<le> 2 ^ 32 \<longrightarrow>
                      (\<exists>H. page_height p = Fin H \<and> 0 < H \<and>
                           \<bar>H / valueOf TARGET_WIDTH - b / a\<bar> \<le> 3 / 2 ^ 53 * (b / a))))"
    by blast
  have "?p \<in> set (concat (map (pagesOf sampleEnv LNone) [samplePdf, samplePng]))"
    by (simp add: sample_pagesOf_png)
  with all obtain c where w: "page_width ?p = TARGET_WIDTH"
    and d: "drawings ?p = [\<lparr>subject = c, at_x = Fin 0, at_y = Fin 0,
                             draw_width = page_width ?p, draw_height = page_height ?p\<rparr>]"
    and h: "page_height ?p = fmul (intrinsicHeight c) (fdiv TARGET_WIDTH (intrinsicWidth c))"
    and r: "\<forall>a b. intrinsicWidth c = Fin a \<and> intrinsicHeight c = Fin b \<and>
                          1 \<le> a \<and> a \<le> 2 ^ 32 \<and> 1 \<le> b \<and> b \<le> 2 ^ 32 \<longrightarrow>
                      (\<exists>H. page_height ?p = Fin H \<and> 0 < H \<and>
                           \<bar>H / valueOf TARGET_WIDTH - b / a\<bar> \<le> 3 / 2 ^ 53 * (b / a))"
    by blast
  from d have c: "c = EmbeddedImage \<lparr>img_bytes = pngBytes, img_isPng = True,
                                     img_width = Fin 600, img_height = Fin 300\<rparr>"
    by (simp add: sample_pagesOf_png)
  from h c have h': "page_height ?p = fmul (Fin 300) (fdiv TARGET_WIDTH (Fin 600))" by simp
  have "intrinsicWidth c = Fin 600 \<and> intrinsicHeight c = Fin 300 \<and>
          (1::real) \<le> 600 \<and> (600::real) \<le> 2 ^ 32 \<and> (1::real) \<le> 300 \<and> (300::real) \<le> 2 ^ 32"
    by (simp add: c)
  with r have r': "\<exists>H. page_height ?p = Fin H \<and> 0 < H \<and>
        \<bar>H / valueOf TARGET_WIDTH - 300 / 600\<bar> \<le> 3 / 2 ^ 53 * (300 / 600)"
    by blast
  from w tw have w': "page_width ?p = Fin (5236138254259978 / 2 ^ 43)" by simp
  from sample_loop w' h' r' show ?thesis by blast
qed

lemma fl_letter_scale: "fl (5236138254259978 / 2 ^ 43 / 612) = 8761120216278133 / 2 ^ 53"
proof -
  have "fl (5236138254259978 / 2 ^ 43 / 612) = of_int 8761120216278133 * pow2 (- 53)"
    by (rule fl_at) (simp_all add: pow2_def roundTiesToEven_def)
  then show ?thesis by (simp add: pow2_def)
qed

lemma fl_letter_height: "fl (792 * (8761120216278133 / 2 ^ 53)) = 6776178917277618 / 2 ^ 43"
proof -
  have "fl (792 * (8761120216278133 / 2 ^ 53)) = of_int 6776178917277618 * pow2 (- 43)"
    by (rule fl_at) (simp_all add: pow2_def roundTiesToEven_def)
  then show ?thesis by (simp add: pow2_def)
qed

lemma fl_letter_ratio:
  "fl (6776178917277618 / 2 ^ 43 / (5236138254259978 / 2 ^ 43)) = 5828187753067700 / 2 ^ 52"
proof -
  have "fl (6776178917277618 / 2 ^ 43 / (5236138254259978 / 2 ^ 43))
          = of_int 5828187753067700 * pow2 (- 52)"
    by (rule fl_at) (simp_all add: pow2_def roundTiesToEven_def)
  then show ?thesis by (simp add: pow2_def)
qed

lemma fl_792_612: "fl (792 / 612) = 5828187753067701 / 2 ^ 52"
proof -
  have "fl (792 / 612) = of_int 5828187753067701 * pow2 (- 52)"
    by (rule fl_at) (simp_all add: pow2_def roundTiesToEven_def)
  then show ?thesis by (simp add: pow2_def)
qed

lemma letter_height:
  "fmul (Fin 792) (fdiv TARGET_WIDTH (Fin 612)) = Fin (6776178917277618 / 2 ^ 43)"
proof -
  have "fdiv TARGET_WIDTH (Fin 612) = Fin (8761120216278133 / 2 ^ 53)"
    using toDouble_at [OF fl_letter_scale, of False] by (simp add: TARGET_WIDTH_value fdiv_Fin)
  moreover have "fmul (Fin 792) (Fin (8761120216278133 / 2 ^ 53)) = Fin (6776178917277618 / 2 ^ 43)"
    using toDouble_at [OF fl_letter_height, of False] by (simp add: fmul_Fin)
  ultimately show ?thesis by simp
qed

lemma sample_pagesOf_letter:
  "pagesOf sampleEnv LNone sampleLetterPdf =
     [scaledPageOf (EmbeddedPage \<lparr>ep_page = PDFPage 1, ep_width = Fin 612, ep_height = Fin 792\<rparr>)]"
  by (simp add: pagesOf_def processFile_def sampleLetterPdf_def mkUpload_def sampleEnv_def
      letterPdfBytes_def pdfBytes_def emptyPdfBytes_def addEmbeddedPage_def Let_def)

text \<open>
  Claim C1 as it is written fails on the ratio.  A source page of 612 by 792 points
  gets a page whose height over width, computed in doubles or exactly, is not 792 over
  612: the two roundings of the scaling leave it one unit in the last place short.
\<close>

theorem page_ratio_counterexample:
  "map page_width (pagesOf sampleEnv LNone sampleLetterPdf) = [Fin (5236138254259978 / 2 ^ 43)] \<and>
   map page_height (pagesOf sampleEnv LNone sampleLetterPdf) = [Fin (6776178917277618 / 2 ^ 43)] \<and>
   fdiv (Fin (6776178917277618 / 2 ^ 43)) (Fin (5236138254259978 / 2 ^ 43))
     = Fin (5828187753067700 / 2 ^ 52) \<and>
   fdiv (Fin 792) (Fin 612) = Fin (5828187753067701 / 2 ^ 52) \<and>
   (6776178917277618 / 2 ^ 43) / (5236138254259978 / 2 ^ 43) \<noteq> (792::real) / 612"
proof -
  have a: "map page_width (pagesOf sampleEnv LNone sampleLetterPdf)
             = [Fin (5236138254259978 / 2 ^ 43)]"
    by (simp add: sample_pagesOf_letter TARGET_WIDTH_value)
  have b: "map page_height (pagesOf sampleEnv LNone sampleLetterPdf)
             = [Fin (6776178917277618 / 2 ^ 43)]"
    by (simp add: sample_pagesOf_letter letter_height)
  have c: "fdiv (Fin (6776178917277618 / 2 ^ 43)) (Fin (5236138254259978 / 2 ^ 43))
     = Fin (5828187753067700 / 2 ^ 52)"
    using toDouble_at [OF fl_letter_ratio, of False] by (simp add: fdiv_Fin)
  have d: "fdiv (Fin 792) (Fin 612) = Fin (5828187753067701 / 2 ^ 52)"
    using toDouble_at [OF fl_792_612, of False] by (simp add: fdiv_Fin)
  have e: "(6776178917277618 / 2 ^ 43) / (5236138254259978 / 2 ^ 43) \<noteq> (792::real) / 612"
    by simp
  from a b c d e show ?thesis by blast
qed

section \<open>Pages per input\<close>

lemma pagesOf_image:
  assumes "ftype fd \<noteq> Pdf" and "processFile env level fd [] = Inr ps"
  shows "length (pagesOf env level fd) = 1"
  using assms
  by (auto simp add: pagesOf_def processFile_def Let_def addImagePage_def
      split: sum.splits prod.splits)

lemma pagesOf_pdf:
  assumes "ftype fd = Pdf" and "processFile env level fd [] = Inr ps"
  shows "\<exists>buf pages eps. arrayBuffer (ufile fd) = Inr buf \<and> load env buf = Inr pages \<and>
           embedPages env pages = Inr eps \<and> length (pagesOf env level fd) = length eps"
proof -
  from assms obtain buf where buf: "arrayBuffer (ufile fd) = Inr buf"
    by (cases "arrayBuffer (ufile fd)") (simp_all add: processFile_def)
  from assms buf obtain pages where pages: "load env buf = Inr pages"
    by (cases "load env buf") (simp_all add: processFile_def)
  from assms buf pages obtain eps where eps: "embedPages env pages = Inr eps"
    by (cases "embedPages env pages") (simp_all add: processFile_def)
  have one: "\<And>ep. length (addEmbeddedPage [] ep) = 1"
    by (simp add: addEmbeddedPage_def Let_def)
  have "length (concat (map (addEmbeddedPage []) eps)) = length eps"
    by (induction eps) (simp_all add: one)
  with assms(1) buf pages eps
  have "length (pagesOf env level fd) = length eps"
    by (simp add: pagesOf_def processFile_def foldl_addEmbeddedPage [of "[]"])
  with buf pages eps show ?thesis by blast
qed

text \<open>
  Claim C3, as amended.  In a successful merge every input that is not of type
  \<open>'pdf'\<close> adds exactly one page.  An input of type \<open>'pdf'\<close> adds one page for each
  embedded page \<open>embedPages\<close> returns for the pages of its source document.  With an
  \<open>embedPages\<close> that returns one embedded page per page it is given, as pdf-lib's
  does, that is one page per page of the source, and none when the source has no
  page: the input adds nothing and the merge carries on.
\<close>

theorem input_page_counts:
  assumes "snd (mergeFiles env files level) = Inr out" and "fd \<in> set files"
  shows "(ftype fd \<noteq> Pdf \<longrightarrow> length (pagesOf env level fd) = 1) \<and>
         (ftype fd = Pdf \<longrightarrow>
            (\<exists>buf pages eps. arrayBuffer (ufile fd) = Inr buf \<and> load env buf = Inr pages \<and>
               embedPages env pages = Inr eps \<and> length (pagesOf env level fd) = length eps \<and>
               ((\<forall>ps es. embedPages env ps = Inr es \<longrightarrow> length es = length ps) \<longrightarrow>
                  length (pagesOf env level fd) = length pages \<and>
                  (pages = [] \<longrightarrow> pagesOf env level fd = []))))"
proof -
  from mergeFiles_Inr [OF assms(1)]
  have "snd (mergeLoop env level (length files) 0 files [] []) =
          Inr (concat (map (pagesOf env level) files))" by simp
  from mergeLoop_Inr_all [OF this] assms(2)
  obtain ps where ok: "processFile env level fd [] = Inr ps" by blast
  have pdf: "ftype fd = Pdf \<longrightarrow>
            (\<exists>buf pages eps. arrayBuffer (ufile fd) = Inr buf \<and> load env buf = Inr pages \<and>
               embedPages env pages = Inr eps \<and> length (pagesOf env level fd) = length eps \<and>
               ((\<forall>ps es. embedPages env ps = Inr es \<longrightarrow> length es = length ps) \<longrightarrow>
                  length (pagesOf env level fd) = length pages \<and>
                  (pages = [] \<longrightarrow> pagesOf env level fd = [])))"
  proof
    assume "ftype fd = Pdf"
    from pagesOf_pdf [OF this ok] obtain buf pages eps where
      e: "arrayBuffer (ufile fd) = Inr buf" "load env buf = Inr pages"
         "embedPages env pages = Inr eps" "length (pagesOf env level fd) = length eps"
      by blast
    have "(\<forall>ps es. embedPages env ps = Inr es \<longrightarrow> length es = length ps) \<longrightarrow>
                  length (pagesOf env level fd) = length pages \<and>
                  (pages = [] \<longrightarrow> pagesOf env level fd = [])"
    proof
      assume "\<forall>ps es. embedPages env ps = Inr es \<longrightarrow> length es = length ps"
      with e(3) have "length eps = length pages" by blast
      with e(4) have "length (pagesOf env level fd) = length pages" by simp
      then show "length (pagesOf env level fd) = length pages \<and>
                  (pages = [] \<longrightarrow> pagesOf env level fd = [])" by auto
    qed
    with e show "\<exists>buf pages eps. arrayBuffer (ufile fd) = Inr buf \<and> load env buf = Inr pages \<and>
               embedPages env pages = Inr eps \<and> length (pagesOf env level fd) = length eps \<and>
               ((\<forall>ps es. embedPages env ps = Inr es \<longrightarrow> length es = length ps) \<longrightarrow>
                  length (pagesOf env level fd) = length pages \<and>
                  (pages = [] \<longrightarrow> pagesOf env level fd = []))"
      by blast
  qed
  from pagesOf_image [OF _ ok] pdf show ?thesis by blast
qed

lemma sample_embedPages_length:
  "\<forall>ps es. embedPages sampleEnv ps = Inr es \<longrightarrow> length es = length ps"
  by (auto simp add: sampleEnv_def)

theorem input_page_counts_witness:
  "snd (mergeFiles sampleEnv [samplePdf, samplePng] LNone) = Inr (pdfBytes @ [0x0A, 0x0A]) \<and>
   samplePng \<in> set [samplePdf, samplePng] \<and> ftype samplePng \<noteq> Pdf \<and>
   length (pagesOf sampleEnv LNone samplePng) = 1 \<and>
   samplePdf \<in> set [samplePdf, samplePng] \<and> ftype samplePdf = Pdf \<and>
   (\<exists>buf pages. arrayBuffer (ufile samplePdf) = Inr buf \<and> load sampleEnv buf = Inr pages \<and>
      length (pagesOf sampleEnv LNone samplePdf) = length pages)"
proof -
  have a: "samplePng \<in> set [samplePdf, samplePng]" "samplePdf \<in> set [samplePdf, samplePng]"
    by simp_all
  have b: "ftype samplePng \<noteq> Pdf" "ftype samplePdf = Pdf"
    by (simp_all add: samplePng_def samplePdf_def mkUpload_def)
  from input_page_counts [OF sample_merge a(1)] b(1)
  have 1: "length (pagesOf sampleEnv LNone samplePng) = 1" by blast
  from input_page_counts [OF sample_merge a(2)] b(2) sample_embedPages_length
  have 2: "\<exists>buf pages. arrayBuffer (ufile samplePdf) = Inr buf \<and> load sampleEnv buf = Inr pages \<and>
      length (pagesOf sampleEnv LNone samplePdf) = length pages"
    by blast
  from sample_merge a b 1 2 show ?thesis by blast
qed

text \<open>
  Claim C3 as it is written fails: a PDF source without pages is merged without any
  error and adds no page.
\<close>

theorem empty_pdf_counterexample:
  "ftype sampleEmptyPdf = Pdf \<and>
   pagesOf sampleEnv LNone sampleEmptyPdf = [] \<and>
   snd (mergeFiles sampleEnv [sampleEmptyPdf] LNone) = Inr pdfBytes"
proof -
  have a: "ftype sampleEmptyPdf = Pdf" by (simp add: sampleEmptyPdf_def mkUpload_def)
  have b: "pagesOf sampleEnv LNone sampleEmptyPdf = []"
    by (simp add: pagesOf_def sample_processFile_emptyPdf)
  have c: "save sampleEnv [] = Inr pdfBytes" by (simp add: sampleEnv_def)
  have "snd (mergeFiles sampleEnv [sampleEmptyPdf] LNone) = Inr pdfBytes"
    by (simp add: mergeFiles_def sample_processFile_emptyPdf c Let_def)
  with a b show ?thesis by blast
qed

section \<open>Failure of an input\<close>

text \<open>
  The three ways an input fails each reach the \<open>catch\<close> clause with the value that
  was thrown: a source document that does not load, an image that does not decode,
  and an image that no embed call accepts.
\<close>

lemma processFile_open_error:
  assumes "ftype fd = Pdf" and "arrayBuffer (ufile fd) = Inr buf" and "load env buf = Inl t"
  shows "processFile env level fd doc = Inl t"
  using assms by (simp add: processFile_def)

lemma processFile_decode_error:
  assumes "ftype fd \<noteq> Pdf"
    and "inp = (case convertedBlob fd of Some blob \<Rightarrow> FromBytes blob | None \<Rightarrow> FromFile (ufile fd))"
    and "fastPath inp level = None" and "imageLoad env inp = None"
  shows "processFile env level fd doc = Inl (Error ''Failed to load image for processing.'')"
  using assms by (simp add: processFile_def processImage_def canvasPath_def)

lemma processFile_embed_error:
  assumes "ftype fd \<noteq> Pdf"
    and "inp = (case convertedBlob fd of Some blob \<Rightarrow> FromBytes blob | None \<Rightarrow> FromFile (ufile fd))"
    and "processImage env inp level = Inr (bs, isPng)"
    and "snd (embedImage env bs isPng) = Inl t"
  shows "processFile env level fd doc = Inl t"
  using assms by (simp add: processFile_def)

lemma errorMessage_parts:
  "\<exists>a b. errorMessage n t = a @ n @ b @ (case t of Error m \<Rightarrow> m | NonError _ \<Rightarrow> unknownError)"
  unfolding errorMessage_def by blast

text \<open>
  Claim C4, as amended.  When the inputs before \<open>fd\<close> are processed and \<open>fd\<close> throws
  \<open>t\<close>, \<open>mergeFiles\<close> throws an \<open>Error\<close> whose message is the template filled with the
  name of \<open>fd\<close>'s file and, after it, with the message of \<open>t\<close> when \<open>t\<close> is an
  \<open>Error\<close> object and with the fixed text for an unknown error when \<open>t\<close> is
  anything else.  Nothing is returned: \<open>save\<close> is not reached, so the pages added for
  the earlier inputs go nowhere.
\<close>

theorem mergeFiles_aborts:
  assumes "\<forall>g\<in>set pre. \<exists>ps. processFile env level g [] = Inr ps"
    and "processFile env level fd [] = Inl t"
  shows "snd (mergeFiles env (pre @ fd # post) level) =
           Inl (Error (errorMessage (name (ufile fd)) t)) \<and>
         (\<forall>out. snd (mergeFiles env (pre @ fd # post) level) \<noteq> Inr out) \<and>
         (\<exists>a b. errorMessage (name (ufile fd)) t =
                  a @ name (ufile fd) @ b @
                  (case t of Error m \<Rightarrow> m | NonError _ \<Rightarrow> unknownError))"
proof -
  have "mergeLoop env level (length (pre @ fd # post)) 0 (pre @ fd # post) [] [] =
           ([] @
              map (\<lambda>j. (processingMessage (0 + j) (name (ufile ((pre @ [fd]) ! j))),
                         Math_round (fmul (fdiv (ofNat (0 + j + 1)) (ofNat (length (pre @ fd # post)))) (Fin 100))))
                [0..<length pre + 1],
            Inl (Error (errorMessage (name (ufile fd)) t)))"
    by (rule mergeLoop_failure [OF assms])
  then have "snd (mergeFiles env (pre @ fd # post) level) =
          Inl (Error (errorMessage (name (ufile fd)) t))"
    by (simp add: mergeFiles_def)
  with errorMessage_parts show ?thesis by simp
qed

lemma sample_pre_ok: "\<forall>g\<in>set [samplePdf]. \<exists>ps. processFile sampleEnv LNone g [] = Inr ps"
  by (simp add: sample_processFile_pdf)

theorem mergeFiles_aborts_witness:
  "processFile sampleEnv LNone sampleBmp [] = Inl (Error ''Failed to load image for processing.'') \<and>
   snd (mergeFiles sampleEnv ([samplePdf] @ sampleBmp # [samplePng]) LNone) =
     Inl (Error (errorMessage ''C.bmp'' (Error ''Failed to load image for processing.'')))"
proof -
  have n: "name (ufile sampleBmp) = ''C.bmp''" by (simp add: sampleBmp_def mkUpload_def)
  from mergeFiles_aborts [OF sample_pre_ok sample_processFile_bmp, of "[samplePng]"] n
    sample_processFile_bmp
  show ?thesis by simp
qed

lemma sample_processFile_corrupt:
  "processFile sampleEnv LNone sampleCorruptPng [] = Inl (NonError ''The input is not a PNG file!'')"
proof -
  have a: "ftype sampleCorruptPng \<noteq> Pdf" "convertedBlob sampleCorruptPng = None"
    by (simp_all add: sampleCorruptPng_def mkUpload_def)
  have "snd (embedImage sampleEnv corruptPngBytes True)
          = Inl (NonError ''The input is not a PNG file!'')"
    by (simp add: embedImage_def sample_embedPng_corrupt sample_embedJpg_corrupt)
  then show ?thesis by (simp add: processFile_def a sample_processImage_corrupt)
qed

text \<open>
  Claim C4 as it is written fails for a cause that is not an \<open>Error\<close> object.  The
  upload D.png carries the PNG signature and embeds under neither codec; the last
  embed call, the PNG one, throws a string.  The message of the error \<open>mergeFiles\<close>
  raises names the file and then carries the fixed text, whatever the string was.
\<close>

theorem unknown_cause_counterexample:
  "processFile sampleEnv LNone sampleCorruptPng [] = Inl (NonError ''The input is not a PNG file!'') \<and>
   snd (mergeFiles sampleEnv [sampleCorruptPng] LNone) =
     Inl (Error (errorMessage ''D.png'' (NonError ''The input is not a PNG file!''))) \<and>
   errorMessage ''D.png'' (NonError ''The input is not a PNG file!'') =
     errorMessage ''D.png'' (NonError [])"
proof -
  have n: "name (ufile sampleCorruptPng) = ''D.png''"
    by (simp add: sampleCorruptPng_def mkUpload_def)
  have "snd (mergeFiles sampleEnv [sampleCorruptPng] LNone) =
     Inl (Error (errorMessage ''D.png'' (NonError ''The input is not a PNG file!'')))"
    by (simp add: mergeFiles_def sample_processFile_corrupt n Let_def)
  moreover have "errorMessage ''D.png'' (NonError ''The input is not a PNG file!'') =
     errorMessage ''D.png'' (NonError [])"
    by (simp add: errorMessage_def)
  ultimately show ?thesis using sample_processFile_corrupt by blast
qed

section \<open>Progress reports\<close>

lemma processingMessage_parts: "\<exists>a b. processingMessage i n = a @ n @ b"
  unfolding processingMessage_def by (metis append.assoc)

lemma processingMessage_not_final: "processingMessage i n \<noteq> finalMessage"
  by (simp add: processingMessage_def finalMessage_def)

lemma no_final_among_processing:
  "filter (\<lambda>e. fst e = finalMessage)
     (map (\<lambda>i. (processingMessage i (f i), g i)) xs) = []"
  by (induction xs) (simp_all add: processingMessage_not_final)

lemma fmul_commute: "fmul a b = fmul b a"
proof -
  have s: "(negative a \<noteq> negative b) = (negative b \<noteq> negative a)" by blast
  show ?thesis unfolding fmul_def s by (auto simp add: mult.commute)
qed

lemma percent_bound:
  assumes "1 \<le> k" and "k \<le> n" and "n < 2 ^ 32"
  shows "\<exists>p. Math_round (fmul (fdiv (ofNat k) (ofNat n)) (Fin 100)) = Fin (of_int p) \<and>
           0 \<le> p \<and> p \<le> 100 \<and>
           \<bar>of_int p - 100 * real k / real n\<bar> \<le> 1 / 2 + 300 / 2 ^ 53"
proof -
  have a: "1 \<le> real k" using assms(1) by simp
  have b: "real k \<le> real n" using assms(2) by simp
  have "real n < real (2 ^ 32)" using assms(3) by (simp only: of_nat_less_iff)
  then have c: "real n < 2 ^ 32" by simp
  have m: "(100::real) = of_int 100" by simp
  from resize_tall [OF a b c m] obtain x where
    x: "fmul (Fin 100) (fdiv (Fin (real k)) (Fin (real n))) = Fin x" and x0: "0 < x"
    and x1: "x \<le> 100" and xe: "\<bar>x - 100 * real k / real n\<bar> \<le> 3 * pow2 (- 53) * (100 * real k / real n)"
    by auto
  define q where "q = real k / real n"
  have q1: "q \<le> 1" using a b by (simp add: q_def)
  have q0: "0 \<le> q" using a b by (simp add: q_def)
  have u: "pow2 (- 53) = 1 / 2 ^ 53" by (simp add: pow2_def)
  have xe': "\<bar>x - 100 * q\<bar> \<le> 300 / 2 ^ 53 * q" using xe by (simp add: q_def u)
  have "300 / 2 ^ 53 * q \<le> 300 / 2 ^ 53 * 1" using q1 by (intro mult_left_mono) simp_all
  with xe' have e: "\<bar>x - 100 * q\<bar> \<le> 300 / 2 ^ 53" by linarith
  define p where "p = \<lfloor>x + 1 / 2\<rfloor>"
  have p0: "0 \<le> p" using x0 by (simp add: p_def)
  have "x + 1 / 2 < 101" using x1 by simp
  then have "p < 101" unfolding p_def by (simp add: floor_less_iff)
  then have p1: "p \<le> 100" by simp
  have "of_int p \<le> x + 1 / 2" "x + 1 / 2 < of_int p + 1" unfolding p_def by linarith+
  with e have pe: "\<bar>of_int p - 100 * q\<bar> \<le> 1 / 2 + 300 / 2 ^ 53" by linarith
  have "Math_round (fmul (fdiv (ofNat k) (ofNat n)) (Fin 100)) = Fin (of_int p)"
    using x x0 by (simp add: fmul_commute [of _ "Fin 100"] ofNat_def Math_round_def p_def)
  with p0 p1 pe show ?thesis unfolding q_def by (intro exI [of _ p]) simp
qed

lemma percent_last:
  assumes "1 \<le> n"
  shows "Math_round (fmul (fdiv (ofNat n) (ofNat n)) (Fin 100)) = Fin 100"
proof -
  have n: "real n \<noteq> 0" using assms by simp
  have "fdiv (Fin (real n)) (Fin (real n)) = Fin 1"
    using toDouble_int [of 1 False] n by (simp add: fdiv_Fin pow2_def)
  moreover have "fmul (Fin 1) (Fin 100) = Fin 100"
    using toDouble_int [of 100 False] by (simp add: fmul_Fin pow2_def)
  ultimately show ?thesis by (simp add: ofNat_def Math_round_def)
qed

text \<open>
  Claim C9, as amended.  When every input is processed, the calls of \<open>onProgress\<close>
  are, in order, one per input index \<open>i\<close> with the processing message (which
  contains the file's name) and \<open>Math.round\<close> of the double the code computes for
  \<open>(i + 1) / n * 100\<close>, then the final message at 100, once; the result is what
  \<open>save\<close> makes of the document.  The report for an input is made before the input
  is processed: when input number \<open>length pre\<close> throws, the reports are those of
  inputs 0 to \<open>length pre\<close>, its own included, and nothing more.  The percentage
  is an integer from 0 to 100 that differs from the exact \<open>100 (i + 1) / n\<close> by at
  most a half and \<open>300 / 2 ^ 53\<close>, so it is the exact value rounded to the nearest
  integer except possibly where the exact value is that close to a half; for the last
  input it is 100.
\<close>

theorem mergeFiles_progress:
  "(\<forall>doc. snd (mergeLoop env level (length files) 0 files [] []) = Inr doc \<longrightarrow>
      fst (mergeFiles env files level) =
        map (\<lambda>i. (processingMessage i (name (ufile (files ! i))),
                   Math_round (fmul (fdiv (ofNat (i + 1)) (ofNat (length files))) (Fin 100))))
          [0..<length files] @ [(finalMessage, Fin 100)] \<and>
      length (filter (\<lambda>e. fst e = finalMessage) (fst (mergeFiles env files level))) = 1 \<and>
      snd (mergeFiles env files level) = save env doc) \<and>
   (\<forall>pre fd post t.
      files = pre @ fd # post \<and>
      (\<forall>g\<in>set pre. \<exists>ps. processFile env level g [] = Inr ps) \<and>
      processFile env level fd [] = Inl t \<longrightarrow>
      fst (mergeFiles env files level) =
        map (\<lambda>i. (processingMessage i (name (ufile (files ! i))),
                   Math_round (fmul (fdiv (ofNat (i + 1)) (ofNat (length files))) (Fin 100))))
          [0..<length pre + 1]) \<and>
   (\<forall>i<length files. \<exists>a b.
      processingMessage i (name (ufile (files ! i))) = a @ name (ufile (files ! i)) @ b) \<and>
   (length files < 2 ^ 32 \<longrightarrow>
      (\<forall>i<length files.
         Math_round (fmul (fdiv (ofNat (i + 1)) (ofNat (length files))) (Fin 100)) =
           Fin (of_int \<lfloor>valueOf (Math_round (fmul (fdiv (ofNat (i + 1)) (ofNat (length files))) (Fin 100)))\<rfloor>) \<and>
         0 \<le> valueOf (Math_round (fmul (fdiv (ofNat (i + 1)) (ofNat (length files))) (Fin 100))) \<and>
         valueOf (Math_round (fmul (fdiv (ofNat (i + 1)) (ofNat (length files))) (Fin 100))) \<le> 100 \<and>
         \<bar>valueOf (Math_round (fmul (fdiv (ofNat (i + 1)) (ofNat (length files))) (Fin 100)))
            - 100 * real (i + 1) / real (length files)\<bar> \<le> 1 / 2 + 300 / 2 ^ 53)) \<and>
   (files \<noteq> [] \<longrightarrow>
      Math_round (fmul (fdiv (ofNat (length files - 1 + 1)) (ofNat (length files))) (Fin 100)) = Fin 100)"
proof (intro conjI allI impI)
  fix doc
  assume ok: "snd (mergeLoop env level (length files) 0 files [] []) = Inr doc"
  from mergeLoop_Inr_all [OF ok]
  have all: "\<forall>fd\<in>set files. \<exists>ps. processFile env level fd [] = Inr ps" .
  have loop: "mergeLoop env level (length files) 0 files [] [] =
           ([] @ map (\<lambda>j. (processingMessage (0 + j) (name (ufile (files ! j))),
                       Math_round (fmul (fdiv (ofNat (0 + j + 1)) (ofNat (length files))) (Fin 100))))
              [0..<length files],
            Inr ([] @ concat (map (pagesOf env level) files)))"
    by (rule mergeLoop_success [OF all])
  with ok have doc: "doc = concat (map (pagesOf env level) files)" by simp
  from loop doc
  show log: "fst (mergeFiles env files level) =
        map (\<lambda>i. (processingMessage i (name (ufile (files ! i))),
                   Math_round (fmul (fdiv (ofNat (i + 1)) (ofNat (length files))) (Fin 100))))
          [0..<length files] @ [(finalMessage, Fin 100)]"
    by (simp add: mergeFiles_def)
  show "length (filter (\<lambda>e. fst e = finalMessage) (fst (mergeFiles env files level))) = 1"
    unfolding log by (simp add: no_final_among_processing)
  from loop doc show "snd (mergeFiles env files level) = save env doc"
    by (simp add: mergeFiles_def)
next
  fix pre fd post t
  assume h: "files = pre @ fd # post \<and>
      (\<forall>g\<in>set pre. \<exists>ps. processFile env level g [] = Inr ps) \<and>
      processFile env level fd [] = Inl t"
  then have pre: "\<forall>g\<in>set pre. \<exists>ps. processFile env level g [] = Inr ps"
    and fd: "processFile env level fd [] = Inl t" and files: "files = pre @ fd # post"
    by simp_all
  have loop: "mergeLoop env level (length files) 0 (pre @ fd # post) [] [] =
           ([] @
              map (\<lambda>j. (processingMessage (0 + j) (name (ufile ((pre @ [fd]) ! j))),
                         Math_round (fmul (fdiv (ofNat (0 + j + 1)) (ofNat (length files))) (Fin 100))))
                [0..<length pre + 1],
            Inl (Error (errorMessage (name (ufile fd)) t)))"
    by (rule mergeLoop_failure [OF pre fd])
  have same: "\<forall>j<length pre + 1. (pre @ [fd]) ! j = files ! j"
    by (simp add: files nth_append)
  have "map (\<lambda>j. (processingMessage j (name (ufile ((pre @ [fd]) ! j))),
                         Math_round (fmul (fdiv (ofNat (j + 1)) (ofNat (length files))) (Fin 100))))
                [0..<length pre + 1] =
        map (\<lambda>i. (processingMessage i (name (ufile (files ! i))),
                   Math_round (fmul (fdiv (ofNat (i + 1)) (ofNat (length files))) (Fin 100))))
          [0..<length pre + 1]"
    by (rule map_cong) (use same in auto)
  with loop show "fst (mergeFiles env files level) =
        map (\<lambda>i. (processingMessage i (name (ufile (files ! i))),
                   Math_round (fmul (fdiv (ofNat (i + 1)) (ofNat (length files))) (Fin 100))))
          [0..<length pre + 1]"
    by (simp add: mergeFiles_def files [symmetric])
next
  fix i assume "i < length files"
  show "\<exists>a b. processingMessage i (name (ufile (files ! i))) = a @ name (ufile (files ! i)) @ b"
    by (rule processingMessage_parts)
next
  fix i assume n: "length files < 2 ^ 32" and i: "i < length files"
  have "1 \<le> i + 1" "i + 1 \<le> length files" using i by simp_all
  from percent_bound [OF this n] obtain p where
    p: "Math_round (fmul (fdiv (ofNat (i + 1)) (ofNat (length files))) (Fin 100)) = Fin (of_int p)"
    and p0: "0 \<le> p" and p1: "p \<le> 100"
    and pe: "\<bar>of_int p - 100 * real (i + 1) / real (length files)\<bar> \<le> 1 / 2 + 300 / 2 ^ 53"
    by (elim exE conjE)
  have v: "valueOf (Math_round (fmul (fdiv (ofNat (i + 1)) (ofNat (length files))) (Fin 100))) = of_int p"
    unfolding p by simp
  show "Math_round (fmul (fdiv (ofNat (i + 1)) (ofNat (length files))) (Fin 100)) =
           Fin (of_int \<lfloor>valueOf (Math_round (fmul (fdiv (ofNat (i + 1)) (ofNat (length files))) (Fin 100)))\<rfloor>)"
    unfolding v using p by simp
  show "0 \<le> valueOf (Math_round (fmul (fdiv (ofNat (i + 1)) (ofNat (length files))) (Fin 100)))"
    unfolding v using p0 by simp
  show "valueOf (Math_round (fmul (fdiv (ofNat (i + 1)) (ofNat (length files))) (Fin 100))) \<le> 100"
    unfolding v using p1 by simp
  show "\<bar>valueOf (Math_round (fmul (fdiv (ofNat (i + 1)) (ofNat (length files))) (Fin 100)))
            - 100 * real (i + 1) / real (length files)\<bar> \<le> 1 / 2 + 300 / 2 ^ 53"
    unfolding v using pe by simp
next
  assume "files \<noteq> []"
  then have n: "1 \<le> length files" by (cases files) simp_all
  then have "length files - 1 + 1 = length files" by simp
  then show "Math_round (fmul (fdiv (ofNat (length files - 1 + 1)) (ofNat (length files))) (Fin 100)) = Fin 100"
    using percent_last [OF n] by (simp only:)
qed


lemma fl_1_3: "fl (1 / 3) = 6004799503160661 / 2 ^ 54"
proof -
  have "fl (1 / 3) = of_int 6004799503160661 * pow2 (- 54)"
    by (rule fl_at) (simp_all add: pow2_def roundTiesToEven_def)
  then show ?thesis by (simp add: pow2_def)
qed

lemma fl_1_3_100: "fl (6004799503160661 / 2 ^ 54 * 100) = 4691249611844266 / 2 ^ 47"
proof -
  have "fl (6004799503160661 / 2 ^ 54 * 100) = of_int 4691249611844266 * pow2 (- 47)"
    by (rule fl_at) (simp_all add: pow2_def roundTiesToEven_def)
  then show ?thesis by (simp add: pow2_def)
qed

lemma fl_2_3: "fl (2 / 3) = 6004799503160661 / 2 ^ 53"
proof -
  have "fl (2 / 3) = of_int 6004799503160661 * pow2 (- 53)"
    by (rule fl_at) (simp_all add: pow2_def roundTiesToEven_def)
  then show ?thesis by (simp add: pow2_def)
qed

lemma fl_2_3_100: "fl (6004799503160661 / 2 ^ 53 * 100) = 4691249611844266 / 2 ^ 46"
proof -
  have "fl (6004799503160661 / 2 ^ 53 * 100) = of_int 4691249611844266 * pow2 (- 46)"
    by (rule fl_at) (simp_all add: pow2_def roundTiesToEven_def)
  then show ?thesis by (simp add: pow2_def)
qed

lemma fl_1_2: "fl (1 / 2) = 1 / 2"
proof -
  have "fl (1 / 2) = of_int 4503599627370496 * pow2 (- 53)"
    by (rule fl_at) (simp_all add: pow2_def roundTiesToEven_def)
  then show ?thesis by (simp add: pow2_def)
qed

lemma percent_1_of_2: "Math_round (fmul (fdiv (Fin 1) (Fin 2)) (Fin 100)) = Fin 50"
proof -
  have "fdiv (Fin 1) (Fin 2) = Fin (1 / 2)"
    using toDouble_at [OF fl_1_2, of False] by (simp add: fdiv_Fin)
  moreover have "fmul (Fin (1 / 2)) (Fin 100) = Fin 50"
    using toDouble_int [of 50 False] by (simp add: fmul_Fin pow2_def)
  ultimately show ?thesis by (simp add: Math_round_def)
qed

lemma percent_2_of_2: "Math_round (fmul (fdiv (Fin 2) (Fin 2)) (Fin 100)) = Fin 100"
proof -
  have "fdiv (Fin 2) (Fin 2) = Fin 1"
    using toDouble_int [of 1 False] by (simp add: fdiv_Fin pow2_def)
  moreover have "fmul (Fin 1) (Fin 100) = Fin 100"
    using toDouble_int [of 100 False] by (simp add: fmul_Fin pow2_def)
  ultimately show ?thesis by (simp add: Math_round_def)
qed

lemma percent_1_of_3: "Math_round (fmul (fdiv (Fin 1) (Fin 3)) (Fin 100)) = Fin 33"
proof -
  have "fdiv (Fin 1) (Fin 3) = Fin (6004799503160661 / 2 ^ 54)"
    using toDouble_at [OF fl_1_3, of False] by (simp add: fdiv_Fin)
  moreover have "fmul (Fin (6004799503160661 / 2 ^ 54)) (Fin 100) = Fin (4691249611844266 / 2 ^ 47)"
    using toDouble_at [OF fl_1_3_100, of False] by (simp add: fmul_Fin)
  ultimately show ?thesis by (simp add: Math_round_def)
qed

lemma percent_2_of_3: "Math_round (fmul (fdiv (Fin 2) (Fin 3)) (Fin 100)) = Fin 67"
proof -
  have "fdiv (Fin 2) (Fin 3) = Fin (6004799503160661 / 2 ^ 53)"
    using toDouble_at [OF fl_2_3, of False] by (simp add: fdiv_Fin)
  moreover have "fmul (Fin (6004799503160661 / 2 ^ 53)) (Fin 100) = Fin (4691249611844266 / 2 ^ 46)"
    using toDouble_at [OF fl_2_3_100, of False] by (simp add: fmul_Fin)
  ultimately show ?thesis by (simp add: Math_round_def)
qed


lemma sample_names:
  "name (ufile samplePdf) = ''A.pdf''" "name (ufile samplePng) = ''B.png''"
  "name (ufile sampleBmp) = ''C.bmp''"
  by (simp_all add: samplePdf_def samplePng_def sampleBmp_def mkUpload_def)

theorem mergeFiles_progress_witness:
  "snd (mergeLoop sampleEnv LNone (length [samplePdf, samplePng]) 0 [samplePdf, samplePng] [] [])
     = Inr (concat (map (pagesOf sampleEnv LNone) [samplePdf, samplePng])) \<and>
   fst (mergeFiles sampleEnv [samplePdf, samplePng] LNone) =
     [(processingMessage 0 ''A.pdf'', Fin 50), (processingMessage 1 ''B.png'', Fin 100),
      (finalMessage, Fin 100)] \<and>
   snd (mergeFiles sampleEnv [samplePdf, samplePng] LNone) = Inr (pdfBytes @ [0x0A, 0x0A]) \<and>
   processFile sampleEnv LNone sampleBmp [] = Inl (Error ''Failed to load image for processing.'') \<and>
   fst (mergeFiles sampleEnv [samplePdf, sampleBmp, samplePng] LNone) =
     [(processingMessage 0 ''A.pdf'', Fin 33), (processingMessage 1 ''C.bmp'', Fin 67)] \<and>
   \<bar>valueOf (Math_round (fmul (fdiv (ofNat (0 + 1)) (ofNat (length [samplePdf, samplePng]))) (Fin 100)))
      - 100 * real (0 + 1) / real (length [samplePdf, samplePng])\<bar> \<le> 1 / 2 + 300 / 2 ^ 53 \<and>
   Math_round (fmul (fdiv (ofNat (length [samplePdf, samplePng] - 1 + 1))
      (ofNat (length [samplePdf, samplePng]))) (Fin 100)) = Fin 100"
proof -
  note thm1 = mergeFiles_progress [of sampleEnv LNone "[samplePdf, samplePng]"]
  have len: "length [samplePdf, samplePng] < 2 ^ 32" by simp
  have i0: "0 < length [samplePdf, samplePng]" by simp
  have ne: "[samplePdf, samplePng] \<noteq> []" by simp
  from thm1 len
  have "\<forall>i<length [samplePdf, samplePng].
     \<bar>valueOf (Math_round (fmul (fdiv (ofNat (i + 1)) (ofNat (length [samplePdf, samplePng]))) (Fin 100)))
      - 100 * real (i + 1) / real (length [samplePdf, samplePng])\<bar> \<le> 1 / 2 + 300 / 2 ^ 53"
    by blast
  with i0
  have c: "\<bar>valueOf (Math_round (fmul (fdiv (ofNat (0 + 1)) (ofNat (length [samplePdf, samplePng]))) (Fin 100)))
      - 100 * real (0 + 1) / real (length [samplePdf, samplePng])\<bar> \<le> 1 / 2 + 300 / 2 ^ 53"
    by blast
  from thm1 ne
  have d: "Math_round (fmul (fdiv (ofNat (length [samplePdf, samplePng] - 1 + 1))
      (ofNat (length [samplePdf, samplePng]))) (Fin 100)) = Fin 100"
    by blast
  from thm1 sample_loop
  have "fst (mergeFiles sampleEnv [samplePdf, samplePng] LNone) =
        map (\<lambda>i. (processingMessage i (name (ufile ([samplePdf, samplePng] ! i))),
                   Math_round (fmul (fdiv (ofNat (i + 1)) (ofNat (length [samplePdf, samplePng]))) (Fin 100))))
          [0..<length [samplePdf, samplePng]] @ [(finalMessage, Fin 100)]"
    by blast
  then have a: "fst (mergeFiles sampleEnv [samplePdf, samplePng] LNone) =
     [(processingMessage 0 ''A.pdf'', Fin 50), (processingMessage 1 ''B.png'', Fin 100),
      (finalMessage, Fin 100)]"
    by (simp add: sample_names ofNat_def percent_1_of_2 percent_2_of_2 upt_rec [of 0] upt_rec [of 1])
  note thm2 = mergeFiles_progress [of sampleEnv LNone "[samplePdf, sampleBmp, samplePng]"]
  have split: "[samplePdf, sampleBmp, samplePng] = [samplePdf] @ sampleBmp # [samplePng]"
    by simp
  from thm2 split sample_pre_ok sample_processFile_bmp
  have "fst (mergeFiles sampleEnv [samplePdf, sampleBmp, samplePng] LNone) =
        map (\<lambda>i. (processingMessage i (name (ufile ([samplePdf, sampleBmp, samplePng] ! i))),
                   Math_round (fmul (fdiv (ofNat (i + 1)) (ofNat (length [samplePdf, sampleBmp, samplePng]))) (Fin 100))))
          [0..<length [samplePdf] + 1]"
    by blast
  then have b: "fst (mergeFiles sampleEnv [samplePdf, sampleBmp, samplePng] LNone) =
     [(processingMessage 0 ''A.pdf'', Fin 33), (processingMessage 1 ''C.bmp'', Fin 67)]"
    by (simp add: sample_names ofNat_def percent_1_of_3 percent_2_of_3 upt_rec [of 0] upt_rec [of 1])
  from a b c d sample_loop sample_merge sample_processFile_bmp show ?thesis by blast
qed

lemma fl_23_40: "fl (23 / 40) = 5179139571476070 / 2 ^ 53"
proof -
  have "fl (23 / 40) = of_int 5179139571476070 * pow2 (- 53)"
    by (rule fl_at) (simp_all add: pow2_def roundTiesToEven_def)
  then show ?thesis by (simp add: pow2_def)
qed

lemma fl_23_40_100: "fl (5179139571476070 / 2 ^ 53 * 100) = 8092405580431359 / 2 ^ 47"
proof -
  have "fl (5179139571476070 / 2 ^ 53 * 100) = of_int 8092405580431359 * pow2 (- 47)"
    by (rule fl_at) (simp_all add: pow2_def roundTiesToEven_def)
  then show ?thesis by (simp add: pow2_def)
qed

lemma percent_23_of_40:
  "Math_round (fmul (fdiv (ofNat 23) (ofNat 40)) (Fin 100)) = Fin 57"
proof -
  have "fdiv (Fin 23) (Fin 40) = Fin (5179139571476070 / 2 ^ 53)"
    using toDouble_at [OF fl_23_40, of False] by (simp add: fdiv_Fin)
  moreover have "fmul (Fin (5179139571476070 / 2 ^ 53)) (Fin 100) = Fin (8092405580431359 / 2 ^ 47)"
    using toDouble_at [OF fl_23_40_100, of False] by (simp add: fmul_Fin)
  ultimately show ?thesis by (simp add: ofNat_def Math_round_def)
qed

lemma sample_forty_ok:
  "\<forall>fd\<in>set (replicate 40 samplePng). \<exists>ps. processFile sampleEnv LNone fd [] = Inr ps"
  by (simp add: sample_processFile_png)

text \<open>
  Claim C9 as it is written fails on the percentage.  With 40 inputs the report for
  the 23rd (index 22) carries 57, while 23 / 40 * 100 = 57.5 rounds to 58: in doubles
  the quotient and the product come out just below 57.5.
\<close>

theorem percent_counterexample:
  "snd (fst (mergeFiles sampleEnv (replicate 40 samplePng) LNone) ! 22) = Fin 57 \<and>
   \<lfloor>(23::real) / 40 * 100 + 1 / 2\<rfloor> = 58"
proof -
  have loop: "mergeLoop sampleEnv LNone 40 0 (replicate 40 samplePng) [] [] =
     ([] @ map (\<lambda>j. (processingMessage (0 + j) (name (ufile (replicate 40 samplePng ! j))),
                      Math_round (fmul (fdiv (ofNat (0 + j + 1)) (ofNat 40)) (Fin 100))))
              [0..<length (replicate 40 samplePng)],
      Inr ([] @ concat (map (pagesOf sampleEnv LNone) (replicate 40 samplePng))))"
    by (rule mergeLoop_success [OF sample_forty_ok])
  have "fst (mergeFiles sampleEnv (replicate 40 samplePng) LNone) ! 22 =
          (processingMessage 22 (name (ufile (replicate 40 samplePng ! 22))),
           Math_round (fmul (fdiv (ofNat 23) (ofNat 40)) (Fin 100)))"
    by (simp add: mergeFiles_def loop nth_append del: mergeLoop.simps replicate.simps)
  then have "snd (fst (mergeFiles sampleEnv (replicate 40 samplePng) LNone) ! 22) = Fin 57"
    by (simp add: percent_23_of_40)
  moreover have "\<lfloor>(23::real) / 40 * 100 + 1 / 2\<rfloor> = 58" by simp
  ultimately show ?thesis by blast
qed

end
